theory Spec2Isabelle
  imports Main "HOL-Library.Sublist"
begin

section \<open>Screenshot target resolution (html/shared/screenshot-target.ts)\<close>

text \<open>
  The fields of \<^verbatim>\<open>Schedule\<close> that \<^verbatim>\<open>resolveScreenshotTarget\<close> reads.  A field that
  is \<^verbatim>\<open>undefined\<close> (or \<^verbatim>\<open>null\<close>) in the schedule object is \<open>None\<close>.
\<close>

record schedule =
  ha_mode :: "bool option"
  dashboard_path :: "string option"
  target_url :: "string option"

record screenshot_target =
  path :: string
  fullUrl :: "string option"
  isHAMode :: bool

definition DEFAULT_DASHBOARD_PATH :: string where
  "DEFAULT_DASHBOARD_PATH = ''/lovelace/0''"

text \<open>
  \<^verbatim>\<open>a ?? b\<close> takes \<open>b\<close> when \<open>a\<close> is absent; \<^verbatim>\<open>a || b\<close> on strings takes \<open>b\<close> when
  \<open>a\<close> is absent or the empty string.
\<close>

definition nullish_or :: "'a option \<Rightarrow> 'a \<Rightarrow> 'a" where
  "nullish_or a b = (case a of None \<Rightarrow> b | Some x \<Rightarrow> x)"

definition truthy :: "string option \<Rightarrow> bool" where
  "truthy a = (case a of None \<Rightarrow> False | Some s \<Rightarrow> s \<noteq> [])"

definition string_or :: "string option \<Rightarrow> string \<Rightarrow> string" where
  "string_or a b = (case a of None \<Rightarrow> b | Some s \<Rightarrow> if s = [] then b else s)"

definition resolveScreenshotTarget :: "schedule \<Rightarrow> screenshot_target" where
  "resolveScreenshotTarget sched =
     (let isHA = nullish_or (ha_mode sched) True in
      if isHA then
        \<lparr>path = string_or (dashboard_path sched) DEFAULT_DASHBOARD_PATH,
         fullUrl = None,
         isHAMode = True\<rparr>
      else
        \<lparr>path = ''/'',
         fullUrl = target_url sched,
         isHAMode = False\<rparr>)"


section \<open>The in-flight request counter of WaitForNetworkIdle\<close>

text \<open>
  The closure variables of \<^verbatim>\<open>WaitForNetworkIdle.call\<close> and its three instrumentation
  handlers.  The counter is a JavaScript number, so it is an \<open>int\<close> here and the
  clamping \<^verbatim>\<open>Math.max(0, n - 1)\<close> is written out.  Each handler reads the clock
  once; the reading is the handler's first argument.
\<close>

record idle_state =
  pendingRequests :: int
  lastActivityTime :: int

datatype net_event = RequestWillBeSent | LoadingFinished | LoadingFailed

definition onRequestWillBeSent :: "int \<Rightarrow> idle_state \<Rightarrow> idle_state" where
  "onRequestWillBeSent now s =
     \<lparr>pendingRequests = pendingRequests s + 1, lastActivityTime = now\<rparr>"

definition onLoadingFinished :: "int \<Rightarrow> idle_state \<Rightarrow> idle_state" where
  "onLoadingFinished now s =
     \<lparr>pendingRequests = max 0 (pendingRequests s - 1), lastActivityTime = now\<rparr>"

definition onLoadingFailed :: "int \<Rightarrow> idle_state \<Rightarrow> idle_state" where
  "onLoadingFailed now s =
     \<lparr>pendingRequests = max 0 (pendingRequests s - 1), lastActivityTime = now\<rparr>"

text \<open>The channel delivers an event, stamped with the clock reading its handler takes.\<close>

fun dispatch :: "idle_state \<Rightarrow> net_event \<times> int \<Rightarrow> idle_state" where
  "dispatch s (RequestWillBeSent, now) = onRequestWillBeSent now s"
| "dispatch s (LoadingFinished, now) = onLoadingFinished now s"
| "dispatch s (LoadingFailed, now) = onLoadingFailed now s"

definition deliver :: "idle_state \<Rightarrow> (net_event \<times> int) list \<Rightarrow> idle_state" where
  "deliver s evs = foldl dispatch s evs"


section \<open>Navigation (lib/browser/navigation-commands.ts): NavigateToPage\<close>

text \<open>
  \<^verbatim>\<open>CannotOpenPageError(status, pageUrl, message?)\<close> is the navigation failure of the
  source.  \<open>TypeError\<close> is what the platform's \<^verbatim>\<open>new URL\<close> throws, and \<open>PageError\<close>
  is a rejection of a page primitive that the source does not catch.
\<close>

datatype error =
    CannotOpenPageError nat string "string option"
  | TypeError string
  | PageError string

record response =
  ok :: bool
  status :: nat

text \<open>\<^verbatim>\<open>page.goto\<close> rejects with a message, or resolves to a response or to \<^verbatim>\<open>null\<close>.\<close>

datatype goto_outcome = GotoRejects string | GotoResolves "response option"

type_synonym AuthStorage = "(string \<times> string) list"

text \<open>The page primitives NavigateToPage uses, as entries of the page's call log.\<close>

datatype call =
    EvaluateOnNewDocument AuthStorage nat
  | RemoveScriptToEvaluateOnNewDocument nat
  | Goto string
  | EvaluateClientNavigation string

text \<open>
  The browser page as far as navigation touches it: the scripts installed to run before
  the next document (identifier and the storage they write), the next fresh identifier,
  and the log of primitive calls in the order they were made.
\<close>

record page =
  scripts :: "(nat \<times> AuthStorage) list"
  next_identifier :: nat
  calls :: "call list"

text \<open>
  What the browser answers during one \<^verbatim>\<open>call\<close>: the current document URL
  (\<^verbatim>\<open>page.url()\<close>), and for each awaited primitive whether it rejects (\<open>Some message\<close>).
\<close>

record browser =
  page_url :: string
  evaluateOnNewDocument_result :: "string option"
  goto_result :: goto_outcome
  evaluate_result :: "string option"

text \<open>
  The constructor arguments of NavigateToPage and the constants it imports from
  \<^verbatim>\<open>const.js\<close>, whose values are not part of this file.
\<close>

record config =
  homeAssistantUrl :: string
  authStorage :: AuthStorage
  DEFAULT_WAIT_TIME :: int
  COLD_START_EXTRA_WAIT :: int
  isAddOn :: bool

record navigation_result =
  waitTime :: int

definition evaluateOnNewDocument :: "AuthStorage \<Rightarrow> page \<Rightarrow> nat \<times> page" where
  "evaluateOnNewDocument storage p =
     (next_identifier p,
      p\<lparr>scripts := scripts p @ [(next_identifier p, storage)],
        next_identifier := Suc (next_identifier p),
        calls := calls p @ [EvaluateOnNewDocument storage (next_identifier p)]\<rparr>)"

definition removeScriptToEvaluateOnNewDocument :: "nat \<Rightarrow> page \<Rightarrow> page" where
  "removeScriptToEvaluateOnNewDocument ident p =
     p\<lparr>scripts := filter (\<lambda>sc. fst sc \<noteq> ident) (scripts p),
       calls := calls p @ [RemoveScriptToEvaluateOnNewDocument ident]\<rparr>"

definition goto :: "string \<Rightarrow> page \<Rightarrow> page" where
  "goto pageUrl p = p\<lparr>calls := calls p @ [Goto pageUrl]\<rparr>"

definition evaluate_client_navigation :: "string \<Rightarrow> page \<Rightarrow> page" where
  "evaluate_client_navigation pagePath p =
     p\<lparr>calls := calls p @ [EvaluateClientNavigation pagePath]\<rparr>"

text \<open>\<^verbatim>\<open>if (evaluateId) { removeScriptToEvaluateOnNewDocument(evaluateId.identifier) }\<close>\<close>

definition remove_if_registered :: "nat option \<Rightarrow> page \<Rightarrow> page" where
  "remove_if_registered evaluateId p =
     (case evaluateId of
        None \<Rightarrow> p
      | Some ident \<Rightarrow> removeScriptToEvaluateOnNewDocument ident p)"

text \<open>\<^verbatim>\<open>!response?.ok()\<close> and \<^verbatim>\<open>response?.status() ?? 0\<close>\<close>

definition response_not_ok :: "response option \<Rightarrow> bool" where
  "response_not_ok resp = (case resp of None \<Rightarrow> True | Some r \<Rightarrow> \<not> ok r)"

definition response_status :: "response option \<Rightarrow> nat" where
  "response_status resp = (case resp of None \<Rightarrow> 0 | Some r \<Rightarrow> status r)"

text \<open>\<^verbatim>\<open>pageUrl.startsWith(this.#homeAssistantUrl)\<close>\<close>

definition shouldInjectAuth :: "config \<Rightarrow> string \<Rightarrow> bool" where
  "shouldInjectAuth cfg pageUrl = prefix (homeAssistantUrl cfg) pageUrl"

text \<open>
  The URL constructor belongs to the platform; it is the parameter \<open>new_URL\<close>, which
  answers the serialised URL, or \<open>None\<close> where the constructor throws its \<open>TypeError\<close>.
\<close>

definition construct_URL ::
  "(string \<Rightarrow> string \<Rightarrow> string option) \<Rightarrow> string \<Rightarrow> string \<Rightarrow> error + string"
where
  "construct_URL new_URL reference base =
     (case new_URL reference base of
        None \<Rightarrow> Inl (TypeError ''Invalid URL'')
      | Some href \<Rightarrow> Inr href)"

text \<open>\<^verbatim>\<open>targetUrl || new URL(pagePath, this.#homeAssistantUrl).toString()\<close>\<close>

definition resolvePageUrl ::
  "(string \<Rightarrow> string \<Rightarrow> string option) \<Rightarrow> config \<Rightarrow> string \<Rightarrow> string option \<Rightarrow> error + string"
where
  "resolvePageUrl new_URL cfg pagePath targetUrl =
     (case targetUrl of
        None \<Rightarrow> construct_URL new_URL pagePath (homeAssistantUrl cfg)
      | Some t \<Rightarrow>
          if t \<noteq> [] then Inr t else construct_URL new_URL pagePath (homeAssistantUrl cfg))"

text \<open>Lines 87-99: register the hook when \<open>injectAuth\<close> holds; the identifier is kept.\<close>

definition register_auth_hook ::
  "config \<Rightarrow> browser \<Rightarrow> bool \<Rightarrow> page \<Rightarrow> error + (nat option \<times> page)"
where
  "register_auth_hook cfg b injectAuth p =
     (if injectAuth then
        (case evaluateOnNewDocument_result b of
           Some msg \<Rightarrow> Inl (PageError msg)
         | None \<Rightarrow>
             (case evaluateOnNewDocument (authStorage cfg) p of
                (ident, p') \<Rightarrow> Inr (Some ident, p')))
      else Inr (None, p))"

definition firstNavigation ::
  "(string \<Rightarrow> string \<Rightarrow> string option) \<Rightarrow> config \<Rightarrow> browser \<Rightarrow> string \<Rightarrow> string option \<Rightarrow>
   page \<Rightarrow> (error + navigation_result) \<times> page"
where
  "firstNavigation new_URL cfg b pagePath targetUrl p =
     (case resolvePageUrl new_URL cfg pagePath targetUrl of
        Inl e \<Rightarrow> (Inl e, p)
      | Inr pageUrl \<Rightarrow>
          (case register_auth_hook cfg b (shouldInjectAuth cfg pageUrl) p of
             Inl e \<Rightarrow> (Inl e, p)
           | Inr (evaluateId, p1) \<Rightarrow>
               (let p2 = goto pageUrl p1 in
                case goto_result b of
                  GotoRejects msg \<Rightarrow>
                    (Inl (CannotOpenPageError 0 pageUrl (Some msg)),
                     remove_if_registered evaluateId p2)
                | GotoResolves resp \<Rightarrow>
                    if response_not_ok resp then
                      (Inl (CannotOpenPageError (response_status resp) pageUrl None),
                       remove_if_registered evaluateId p2)
                    else
                      (Inr \<lparr>waitTime = DEFAULT_WAIT_TIME cfg +
                                (if isAddOn cfg then COLD_START_EXTRA_WAIT cfg else 0)\<rparr>,
                       remove_if_registered evaluateId p2))))"

definition subsequentNavigation ::
  "(string \<Rightarrow> string \<Rightarrow> string option) \<Rightarrow> config \<Rightarrow> browser \<Rightarrow> string \<Rightarrow> string option \<Rightarrow>
   page \<Rightarrow> (error + navigation_result) \<times> page"
where
  "subsequentNavigation new_URL cfg b pagePath targetUrl p =
     (let isGenericUrl = truthy targetUrl;
          isCurrentlyOnHA = prefix (homeAssistantUrl cfg) (page_url b)
      in
      if isGenericUrl \<or> \<not> isCurrentlyOnHA then
        (case resolvePageUrl new_URL cfg pagePath targetUrl of
           Inl e \<Rightarrow> (Inl e, p)
         | Inr pageUrl \<Rightarrow>
             (let p1 = goto pageUrl p in
              case goto_result b of
                GotoRejects msg \<Rightarrow> (Inl (CannotOpenPageError 0 pageUrl (Some msg)), p1)
              | GotoResolves resp \<Rightarrow>
                  if response_not_ok resp then
                    (Inl (CannotOpenPageError (response_status resp) pageUrl None), p1)
                  else (Inr \<lparr>waitTime = DEFAULT_WAIT_TIME cfg\<rparr>, p1)))
      else
        (case construct_URL new_URL pagePath (homeAssistantUrl cfg) of
           Inl e \<Rightarrow> (Inl e, p)
         | Inr haUrl \<Rightarrow>
             (let p1 = evaluate_client_navigation pagePath p in
              case evaluate_result b of
                Some msg \<Rightarrow> (Inl (PageError msg), p1)
              | None \<Rightarrow> (Inr \<lparr>waitTime = DEFAULT_WAIT_TIME cfg\<rparr>, p1))))"

text \<open>\<^verbatim>\<open>NavigateToPage.call(pagePath, isFirstNavigation, targetUrl)\<close>\<close>

definition call ::
  "(string \<Rightarrow> string \<Rightarrow> string option) \<Rightarrow> config \<Rightarrow> browser \<Rightarrow> string \<Rightarrow> bool \<Rightarrow>
   string option \<Rightarrow> page \<Rightarrow> (error + navigation_result) \<times> page"
where
  "call new_URL cfg b pagePath isFirstNavigation targetUrl p =
     (if isFirstNavigation then firstNavigation new_URL cfg b pagePath targetUrl p
      else subsequentNavigation new_URL cfg b pagePath targetUrl p)"

text \<open>The calls a navigation added to the page's log.\<close>

definition new_calls :: "page \<Rightarrow> page \<Rightarrow> call list" where
  "new_calls p p' = drop (length (calls p)) (calls p')"

definition is_goto :: "call \<Rightarrow> bool" where
  "is_goto c = (case c of Goto u \<Rightarrow> True | _ \<Rightarrow> False)"

definition is_injection :: "call \<Rightarrow> bool" where
  "is_injection c = (case c of EvaluateOnNewDocument st i \<Rightarrow> True | _ \<Rightarrow> False)"

definition is_removal :: "call \<Rightarrow> bool" where
  "is_removal c = (case c of RemoveScriptToEvaluateOnNewDocument i \<Rightarrow> True | _ \<Rightarrow> False)"

definition is_client_navigation :: "call \<Rightarrow> bool" where
  "is_client_navigation c = (case c of EvaluateClientNavigation u \<Rightarrow> True | _ \<Rightarrow> False)"


section \<open>Readiness detectors (lib/browser/navigation-commands.ts)\<close>

text \<open>
  The detectors poll: they read the clock (\<^verbatim>\<open>Date.now()\<close>), ask the page, and sleep.
  The clock and the page belong to the environment, so a run is driven by a list of
  rounds, one per loop iteration, that holds what the environment answers in that
  iteration: \<open>now_cond\<close> is the reading taken by the loop condition and \<open>now_ret\<close> the
  reading taken when the detector computes the value it returns (in the iteration that
  declares readiness, or after the loop when the condition failed).  A run that needs
  more iterations than the list supplies is \<open>None\<close>.  The sleep between two
  iterations only lets the clock advance, so it shows in the next round's readings.
  Times are milliseconds.

  Each detector writes one line to the debug log on the way out; the lines are kept,
  as they tell the outcomes apart that return the same kind of number.
\<close>

datatype log_line =
    TimeoutWaitingForHA
  | PageStableAfter int nat
  | PageStabilityTimeoutAfter int
  | NetworkIdleAfter int
  | NetworkIdleTimeoutAfter int int
  | NetworkIdleUnavailable string
  | LoadingIndicatorsClearedAfter int
  | LoadingIndicatorTimeoutAfter int

record round =
  now_cond :: int
  now_ret :: int

subsection \<open>WaitForPageLoad\<close>

text \<open>
  \<^verbatim>\<open>page.waitForFunction(..., {timeout: 3000, polling: 100})\<close> rejects (\<open>Some message\<close>)
  when its timeout passes; the source catches the rejection and logs.
\<close>

definition WaitForPageLoad_try :: "string option \<Rightarrow> error + unit" where
  "WaitForPageLoad_try waitForFunction_result =
     (case waitForFunction_result of
        Some msg \<Rightarrow> Inl (PageError msg)
      | None \<Rightarrow> Inr ())"

definition WaitForPageLoad_call :: "string option \<Rightarrow> (error + unit) \<times> log_line list" where
  "WaitForPageLoad_call waitForFunction_result =
     (case WaitForPageLoad_try waitForFunction_result of
        Inl err \<Rightarrow> (Inr (), [TimeoutWaitingForHA])
      | Inr u \<Rightarrow> (Inr u, []))"

subsection \<open>WaitForPageStable\<close>

record stability_metrics =
  height :: nat
  contentHash :: nat

record stable_state =
  lastHeight :: nat
  lastContent :: nat
  stableChecks :: nat

text \<open>\<open>metrics\<close> is what \<^verbatim>\<open>page.evaluate\<close> answers in this iteration; \<open>Inl\<close> is a rejection.\<close>

record stable_round = round +
  metrics :: "string + stability_metrics"

definition requiredStableChecks :: nat where
  "requiredStableChecks = 3"

fun stable_loop ::
  "int \<Rightarrow> int \<Rightarrow> stable_state \<Rightarrow> stable_round list \<Rightarrow> ((error + int) \<times> log_line list) option"
where
  "stable_loop timeout start s [] = None"
| "stable_loop timeout start s (r # rs) =
     (if now_cond r - start < timeout then
        (case metrics r of
           Inl msg \<Rightarrow> Some (Inl (PageError msg), [])
         | Inr m \<Rightarrow>
             if height m = lastHeight s \<and> contentHash m = lastContent s then
               (if requiredStableChecks \<le> stableChecks s + 1 then
                  Some (Inr (now_ret r - start),
                        [PageStableAfter (now_ret r - start) (stableChecks s + 1)])
                else
                  stable_loop timeout start
                    \<lparr>lastHeight = height m, lastContent = contentHash m,
                     stableChecks = stableChecks s + 1\<rparr> rs)
             else
               stable_loop timeout start
                 \<lparr>lastHeight = height m, lastContent = contentHash m, stableChecks = 0\<rparr> rs)
      else
        Some (Inr (now_ret r - start), [PageStabilityTimeoutAfter (now_ret r - start)]))"

text \<open>\<open>start\<close> is the reading of \<^verbatim>\<open>const start = Date.now()\<close>.\<close>

definition WaitForPageStable_call ::
  "int \<Rightarrow> int \<Rightarrow> stable_round list \<Rightarrow> ((error + int) \<times> log_line list) option"
where
  "WaitForPageStable_call timeout start rounds =
     stable_loop timeout start \<lparr>lastHeight = 0, lastContent = 0, stableChecks = 0\<rparr> rounds"

text \<open>
  For a sequence of samples, whether each one equals the value the detector holds as
  the previous one; before the first sample that value is given.
\<close>

fun unchanged :: "nat \<Rightarrow> nat \<Rightarrow> stability_metrics list \<Rightarrow> bool list" where
  "unchanged prevHeight prevContent [] = []"
| "unchanged prevHeight prevContent (m # ms) =
     (height m = prevHeight \<and> contentHash m = prevContent) #
     unchanged (height m) (contentHash m) ms"

subsection \<open>WaitForNetworkIdle\<close>

text \<open>
  A round of the idle loop also holds the reading taken for
  \<^verbatim>\<open>timeSinceLastActivity\<close> and the events the channel delivers while the loop
  sleeps.  Handlers run only while the detector awaits.  Events that arrive while it
  awaits the detach change the counter that the timeout line logs; after the idle line
  they change nothing the detector still reads.
\<close>

record idle_round = round +
  now_check :: int
  during_sleep :: "(net_event \<times> int) list"

text \<open>
  What the instrumentation channel does in one call: whether creating the session or
  enabling the network domain rejects, the reading that initialises
  \<^verbatim>\<open>lastActivityTime\<close>, the events delivered while the detector awaits the detach
  after its loop, whether the detach rejects, and the reading taken in the \<^verbatim>\<open>catch\<close>
  block.
\<close>

record channel =
  attach_result :: "string option"
  now_attached :: int
  during_detach :: "(net_event \<times> int) list"
  detach_result :: "string option"
  now_catch :: int

text \<open>The loop inside the \<^verbatim>\<open>try\<close> block; \<open>Inl message\<close> is an exception thrown in it.\<close>

fun idle_loop ::
  "int \<Rightarrow> int \<Rightarrow> int \<Rightarrow> channel \<Rightarrow> idle_state \<Rightarrow> idle_round list \<Rightarrow>
   ((string + int) \<times> log_line list) option"
where
  "idle_loop timeout idleTime start ch s [] = None"
| "idle_loop timeout idleTime start ch s (r # rs) =
     (if now_cond r - start < timeout then
        (let timeSinceLastActivity = now_check r - lastActivityTime s;
             isIdle = (pendingRequests s = 0 \<and> idleTime \<le> timeSinceLastActivity)
         in
         if isIdle then
           (let actualWait = now_ret r - start in
            case detach_result ch of
              Some msg \<Rightarrow> Some (Inl msg, [NetworkIdleAfter actualWait])
            | None \<Rightarrow> Some (Inr actualWait, [NetworkIdleAfter actualWait]))
         else idle_loop timeout idleTime start ch (deliver s (during_sleep r)) rs)
      else
        (case detach_result ch of
           Some msg \<Rightarrow> Some (Inl msg, [])
         | None \<Rightarrow>
             (let s' = deliver s (during_detach ch);
                  actualWait = now_ret r - start
              in Some (Inr actualWait,
                       [NetworkIdleTimeoutAfter actualWait (pendingRequests s')]))))"

definition WaitForNetworkIdle_try ::
  "int \<Rightarrow> int \<Rightarrow> int \<Rightarrow> channel \<Rightarrow> idle_round list \<Rightarrow> ((string + int) \<times> log_line list) option"
where
  "WaitForNetworkIdle_try timeout idleTime start ch rounds =
     (case attach_result ch of
        Some msg \<Rightarrow> Some (Inl msg, [])
      | None \<Rightarrow>
          idle_loop timeout idleTime start ch
            \<lparr>pendingRequests = 0, lastActivityTime = now_attached ch\<rparr> rounds)"

text \<open>The \<^verbatim>\<open>catch\<close> block logs and returns the elapsed time.\<close>

definition WaitForNetworkIdle_call ::
  "int \<Rightarrow> int \<Rightarrow> int \<Rightarrow> channel \<Rightarrow> idle_round list \<Rightarrow> ((error + int) \<times> log_line list) option"
where
  "WaitForNetworkIdle_call timeout idleTime start ch rounds =
     (case WaitForNetworkIdle_try timeout idleTime start ch rounds of
        None \<Rightarrow> None
      | Some (Inl msg, log) \<Rightarrow> Some (Inr (now_catch ch - start), log @ [NetworkIdleUnavailable msg])
      | Some (Inr actualWait, log) \<Rightarrow> Some (Inr actualWait, log))"

subsection \<open>WaitForLoadingComplete\<close>

text \<open>\<open>hasLoadingIndicators\<close> is what \<^verbatim>\<open>page.evaluate\<close> answers; \<open>Inl\<close> is a rejection.\<close>

record loading_round = round +
  hasLoadingIndicators :: "string + bool"

fun loading_loop ::
  "int \<Rightarrow> int \<Rightarrow> loading_round list \<Rightarrow> ((error + int) \<times> log_line list) option"
where
  "loading_loop timeout start [] = None"
| "loading_loop timeout start (r # rs) =
     (if now_cond r - start < timeout then
        (case hasLoadingIndicators r of
           Inl msg \<Rightarrow> Some (Inl (PageError msg), [])
         | Inr indicators \<Rightarrow>
             if \<not> indicators then
               Some (Inr (now_ret r - start),
                     [LoadingIndicatorsClearedAfter (now_ret r - start)])
             else loading_loop timeout start rs)
      else
        Some (Inr (now_ret r - start), [LoadingIndicatorTimeoutAfter (now_ret r - start)]))"

definition WaitForLoadingComplete_call ::
  "int \<Rightarrow> int \<Rightarrow> loading_round list \<Rightarrow> ((error + int) \<times> log_line list) option"
where
  "WaitForLoadingComplete_call timeout start rounds = loading_loop timeout start rounds"

subsection \<open>A clock that does not run backwards\<close>

text \<open>
  \<open>clock_ok t rounds\<close>: starting from the reading \<open>t\<close>, every loop-condition reading is at
  least the one before it, and the reading taken for the returned value is at least the
  loop-condition reading of the same iteration.
\<close>

fun clock_ok :: "int \<Rightarrow> 'a round_scheme list \<Rightarrow> bool" where
  "clock_ok t [] = True"
| "clock_ok t (r # rs) = (t \<le> now_cond r \<and> now_cond r \<le> now_ret r \<and> clock_ok (now_cond r) rs)"

text \<open>The elapsed time a loop condition computes in a round.\<close>

definition elapsed_at :: "int \<Rightarrow> 'a round_scheme \<Rightarrow> int" where
  "elapsed_at start r = now_cond r - start"


section \<open>Origins as the specification words them, and the platform's URL constructor\<close>

text \<open>
  The specification compares origins: scheme, host and port, where the default port (80
  for http, 443 for https) counts as no port.  \<open>spec_origin\<close> reads the origin off a URL
  of the shape \<^verbatim>\<open>scheme://host[:port][/...]\<close> with scheme http or https; it is the
  specification's notion, not something the source computes.  Scheme and host compare
  without regard to ASCII case, a port is a decimal number of at most 65535, and leading
  zeros of a port do not count.
\<close>

definition ascii_lower :: "char \<Rightarrow> char" where
  "ascii_lower c =
     (case map_of (zip ''ABCDEFGHIJKLMNOPQRSTUVWXYZ'' ''abcdefghijklmnopqrstuvwxyz'') c of
        None \<Rightarrow> c
      | Some l \<Rightarrow> l)"

definition is_digit :: "char \<Rightarrow> bool" where
  "is_digit c = (c \<in> set ''0123456789'')"

definition default_port :: "string \<Rightarrow> string" where
  "default_port scheme = (if scheme = ''http'' then ''80'' else ''443'')"

definition canonical_port :: "string \<Rightarrow> string" where
  "canonical_port digits =
     (let d = dropWhile (\<lambda>c. c = CHR ''0'') digits in if d = [] then ''0'' else d)"

text \<open>
  Decimal numerals without leading zeros and of equal length compare digit by digit;
  a port in canonical form is in range when it has fewer than five digits, or five
  and does not exceed 65535.
\<close>

definition digit_less :: "char \<Rightarrow> char \<Rightarrow> bool" where
  "digit_less x y = (x \<in> set (takeWhile (\<lambda>d. d \<noteq> y) ''0123456789''))"

fun digits_le :: "string \<Rightarrow> string \<Rightarrow> bool" where
  "digits_le [] ys = True"
| "digits_le (x # xs) [] = False"
| "digits_le (x # xs) (y # ys) = (if x = y then digits_le xs ys else digit_less x y)"

definition port_in_range :: "string \<Rightarrow> bool" where
  "port_in_range digits =
     (let c = canonical_port digits
      in drop 4 c = [] \<or> (drop 5 c = [] \<and> digits_le c ''65535''))"

definition spec_origin :: "string \<Rightarrow> (string \<times> string \<times> string option) option" where
  "spec_origin u =
     (let scheme = map ascii_lower (takeWhile (\<lambda>c. c \<noteq> CHR '':'') u);
          rest = drop (length scheme) u
      in
      if (scheme = ''http'' \<or> scheme = ''https'') \<and> take 3 rest = ''://'' then
        (let authority = takeWhile (\<lambda>c. c \<notin> set ''/?#'') (drop 3 rest);
             host = map ascii_lower (takeWhile (\<lambda>c. c \<noteq> CHR '':'') authority);
             port = drop (Suc (length host)) authority
         in
         if host = [] \<or> \<not> list_all is_digit port \<or> \<not> port_in_range port then None
         else if port = [] \<or> canonical_port port = default_port scheme
           then Some (scheme, host, None)
           else Some (scheme, host, Some (canonical_port port)))
      else None)"

definition spec_same_origin :: "string \<Rightarrow> string \<Rightarrow> bool" where
  "spec_same_origin a b = (spec_origin a \<noteq> None \<and> spec_origin a = spec_origin b)"

definition serialize_origin :: "string \<times> string \<times> string option \<Rightarrow> string" where
  "serialize_origin og =
     (case og of (scheme, host, port) \<Rightarrow>
        scheme @ ''://'' @ host @ (case port of None \<Rightarrow> [] | Some digits \<Rightarrow> '':'' @ digits))"

text \<open>
  An http or https URL in its parts: origin, path (\<open>/\<close> when there is none), query
  with its \<open>?\<close>, fragment with its \<open>#\<close>.
\<close>

definition url_parts ::
  "string \<Rightarrow> ((string \<times> string \<times> string option) \<times> string \<times> string \<times> string) option"
where
  "url_parts u =
     (case spec_origin u of
        None \<Rightarrow> None
      | Some og \<Rightarrow>
          (let scheme = takeWhile (\<lambda>c. c \<noteq> CHR '':'') u;
               rest = dropWhile (\<lambda>c. c \<notin> set ''/?#'') (drop (length scheme + 3) u);
               pth = takeWhile (\<lambda>c. c \<notin> set ''?#'') rest;
               qry = takeWhile (\<lambda>c. c \<noteq> CHR ''#'') (drop (length pth) rest);
               frag = drop (length pth + length qry) rest
           in Some (og, if pth = [] then ''/'' else pth, qry, frag)))"

definition href :: "(string \<times> string \<times> string option) \<times> string \<times> string \<times> string \<Rightarrow> string" where
  "href parts =
     (case parts of (og, pth, qry, frag) \<Rightarrow> serialize_origin og @ pth @ qry @ frag)"

text \<open>The path up to and including its last \<open>/\<close>.\<close>

definition directory :: "string \<Rightarrow> string" where
  "directory pth = rev (dropWhile (\<lambda>c. c \<noteq> CHR ''/'') (rev pth))"

text \<open>
  The platform's \<^verbatim>\<open>new URL(reference, base).toString()\<close>, after the URL Standard, for
  an http or https base: a reference that is itself an http or https URL stands for
  itself; \<open>//host/...\<close> takes the base's scheme; an absolute path replaces the base's
  path; an empty reference, a query or a fragment keeps the base's path; any other
  reference is a path relative to the directory of the base's path.  The origin is
  serialised in lower case and without a default port.  A base that is no such URL
  makes the constructor throw (\<open>None\<close>).  Not modelled: references with another
  scheme, dot segments, percent-encoding, backslashes and white space, credentials and
  bracketed or non-ASCII hosts.  The theorems that quantify over navigations take the
  constructor as a parameter and do not depend on this model; the evaluations below
  apply it to absolute paths only.
\<close>

definition new_URL_toString :: "string \<Rightarrow> string \<Rightarrow> string option" where
  "new_URL_toString reference base =
     (case url_parts base of
        None \<Rightarrow> None
      | Some (og, pth, qry, frag) \<Rightarrow>
          if spec_origin reference \<noteq> None then map_option href (url_parts reference)
          else if take 2 reference = ''//'' then
            map_option href (url_parts (fst og @ '':'' @ reference))
          else if take 1 reference = ''/'' then Some (serialize_origin og @ reference)
          else if reference = [] then Some (serialize_origin og @ pth @ qry)
          else if take 1 reference = ''?'' then Some (serialize_origin og @ pth @ reference)
          else if take 1 reference = ''#'' then
            Some (serialize_origin og @ pth @ qry @ reference)
          else Some (serialize_origin og @ directory pth @ reference))"


section \<open>Example runs\<close>

text \<open>
  A page whose content grows once and then stays: polled every 101 ms, five samples.
\<close>

definition settling_rounds :: "stable_round list" where
  "settling_rounds =
     [\<lparr>now_cond = 0, now_ret = 1, metrics = Inr \<lparr>height = 480, contentHash = 1200\<rparr>\<rparr>,
      \<lparr>now_cond = 101, now_ret = 102, metrics = Inr \<lparr>height = 480, contentHash = 5200\<rparr>\<rparr>,
      \<lparr>now_cond = 202, now_ret = 203, metrics = Inr \<lparr>height = 480, contentHash = 5200\<rparr>\<rparr>,
      \<lparr>now_cond = 303, now_ret = 304, metrics = Inr \<lparr>height = 480, contentHash = 5200\<rparr>\<rparr>,
      \<lparr>now_cond = 404, now_ret = 405, metrics = Inr \<lparr>height = 480, contentHash = 5200\<rparr>\<rparr>]"

text \<open>
  A channel that attaches; one request starts and finishes during the first sleep, and
  the loop wakes every 101 ms after that.
\<close>

definition quiet_channel :: channel where
  "quiet_channel =
     \<lparr>attach_result = None, now_attached = 20, during_detach = [],
      detach_result = None, now_catch = 700\<rparr>"

definition quiet_rounds :: "idle_round list" where
  "quiet_rounds =
     [\<lparr>now_cond = 20, now_ret = 20, now_check = 20,
       during_sleep = [(RequestWillBeSent, 50), (LoadingFinished, 90)]\<rparr>,
      \<lparr>now_cond = 121, now_ret = 121, now_check = 121, during_sleep = []\<rparr>,
      \<lparr>now_cond = 222, now_ret = 222, now_check = 222, during_sleep = []\<rparr>,
      \<lparr>now_cond = 323, now_ret = 323, now_check = 323, during_sleep = []\<rparr>,
      \<lparr>now_cond = 424, now_ret = 424, now_check = 424, during_sleep = []\<rparr>,
      \<lparr>now_cond = 525, now_ret = 525, now_check = 525, during_sleep = []\<rparr>,
      \<lparr>now_cond = 626, now_ret = 627, now_check = 626, during_sleep = []\<rparr>]"

text \<open>
  A channel that attaches; two requests start during the first sleep and never finish.
\<close>

definition busy_channel :: channel where
  "busy_channel =
     \<lparr>attach_result = None, now_attached = 2, during_detach = [],
      detach_result = None, now_catch = 400\<rparr>"

definition busy_rounds :: "idle_round list" where
  "busy_rounds =
     [\<lparr>now_cond = 2, now_ret = 2, now_check = 2,
       during_sleep = [(RequestWillBeSent, 40), (RequestWillBeSent, 55)]\<rparr>,
      \<lparr>now_cond = 103, now_ret = 103, now_check = 103, during_sleep = []\<rparr>,
      \<lparr>now_cond = 204, now_ret = 204, now_check = 204, during_sleep = []\<rparr>,
      \<lparr>now_cond = 305, now_ret = 306, now_check = 305, during_sleep = []\<rparr>]"


section \<open>Properties of target resolution\<close>

text \<open>
  Claim C10.  For every schedule: when \<open>ha_mode\<close> is true or absent the target has no
  \<open>fullUrl\<close>, is flagged as HA mode and its path is \<open>dashboard_path\<close>, or
  \<open>/lovelace/0\<close> when \<open>dashboard_path\<close> is absent or empty; when \<open>ha_mode\<close> is false
  the path is \<open>/\<close> and \<open>fullUrl\<close> is \<open>target_url\<close>.  Hence a target in HA mode never
  carries a \<open>fullUrl\<close>.
\<close>

theorem resolveScreenshotTarget_modes:
  "(ha_mode sched \<noteq> Some False \<longrightarrow>
      fullUrl (resolveScreenshotTarget sched) = None \<and>
      isHAMode (resolveScreenshotTarget sched) \<and>
      path (resolveScreenshotTarget sched) =
        (case dashboard_path sched of
           None \<Rightarrow> ''/lovelace/0''
         | Some d \<Rightarrow> if d = [] then ''/lovelace/0'' else d)) \<and>
   (ha_mode sched = Some False \<longrightarrow>
      path (resolveScreenshotTarget sched) = ''/'' \<and>
      fullUrl (resolveScreenshotTarget sched) = target_url sched \<and>
      \<not> isHAMode (resolveScreenshotTarget sched)) \<and>
   (isHAMode (resolveScreenshotTarget sched) \<longrightarrow>
      fullUrl (resolveScreenshotTarget sched) = None)"
proof (cases "ha_mode sched")
  case None
  then show ?thesis
    by (simp add: resolveScreenshotTarget_def nullish_or_def string_or_def
        DEFAULT_DASHBOARD_PATH_def split: option.splits)
next
  case (Some b)
  then show ?thesis
    by (cases b)
       (simp_all add: resolveScreenshotTarget_def nullish_or_def string_or_def
          DEFAULT_DASHBOARD_PATH_def split: option.splits)
qed

theorem resolveScreenshotTarget_modes_witness:
  "resolveScreenshotTarget
     \<lparr>ha_mode = None, dashboard_path = Some [], target_url = Some ''https://example.com''\<rparr>
   = \<lparr>path = ''/lovelace/0'', fullUrl = None, isHAMode = True\<rparr>"
proof -
  let ?s = "\<lparr>ha_mode = None, dashboard_path = Some [],
              target_url = Some ''https://example.com''\<rparr>"
  have hyp: "ha_mode ?s \<noteq> Some False" by simp
  from resolveScreenshotTarget_modes [of ?s] hyp
  have "fullUrl (resolveScreenshotTarget ?s) = None"
    and "isHAMode (resolveScreenshotTarget ?s)"
    and "path (resolveScreenshotTarget ?s) = ''/lovelace/0''"
    by simp_all
  then show ?thesis
    by (cases "resolveScreenshotTarget ?s") simp
qed


section \<open>Properties of the in-flight counter\<close>

lemma dispatch_pending_nonneg:
  "0 \<le> pendingRequests s \<Longrightarrow> 0 \<le> pendingRequests (dispatch s ev)"
  by (cases "(s, ev)" rule: dispatch.cases)
     (simp_all add: onRequestWillBeSent_def onLoadingFinished_def onLoadingFailed_def)

lemma deliver_pending_nonneg:
  "0 \<le> pendingRequests s \<Longrightarrow> 0 \<le> pendingRequests (deliver s evs)"
  unfolding deliver_def
  by (induction evs arbitrary: s) (simp_all add: dispatch_pending_nonneg)

lemma deliver_completions_stay_zero:
  "pendingRequests s = 0 \<Longrightarrow> fst ` set evs \<subseteq> {LoadingFinished, LoadingFailed} \<Longrightarrow>
   pendingRequests (deliver s evs) = 0"
  unfolding deliver_def
proof (induction evs arbitrary: s)
  case Nil
  then show ?case by simp
next
  case (Cons ev evs)
  obtain k now where ev: "ev = (k, now)" by (cases ev)
  with Cons.prems have "k = LoadingFinished \<or> k = LoadingFailed" by auto
  with ev Cons.prems have "pendingRequests (dispatch s ev) = 0"
    by (auto simp: onLoadingFinished_def onLoadingFailed_def)
  moreover from Cons.prems have "fst ` set evs \<subseteq> {LoadingFinished, LoadingFailed}" by auto
  ultimately show ?case using Cons.IH by simp
qed

text \<open>
  Claim C9.  The in-flight counter starts at 0 and is never negative after any sequence
  of requestWillBeSent / loadingFinished / loadingFailed events: a completion computes
  \<open>max 0 (n - 1)\<close>, so completions that match no counted request leave the counter at
  0, and a request start adds exactly one.
\<close>

theorem pendingRequests_never_negative:
  "0 \<le> pendingRequests (deliver \<lparr>pendingRequests = 0, lastActivityTime = t0\<rparr> evs) \<and>
   pendingRequests (onLoadingFinished now s) = max 0 (pendingRequests s - 1) \<and>
   pendingRequests (onLoadingFailed now s) = max 0 (pendingRequests s - 1) \<and>
   pendingRequests (onRequestWillBeSent now s) = pendingRequests s + 1 \<and>
   pendingRequests
     (deliver \<lparr>pendingRequests = 0, lastActivityTime = t0\<rparr>
        (map (\<lambda>t. (LoadingFinished, t)) ts @ map (\<lambda>t. (LoadingFailed, t)) us)) = 0"
proof -
  have "fst ` set (map (\<lambda>t. (LoadingFinished, t)) ts @ map (\<lambda>t. (LoadingFailed, t)) us)
          \<subseteq> {LoadingFinished, LoadingFailed}"
    by auto
  then have "pendingRequests
     (deliver \<lparr>pendingRequests = 0, lastActivityTime = t0\<rparr>
        (map (\<lambda>t. (LoadingFinished, t)) ts @ map (\<lambda>t. (LoadingFailed, t)) us)) = 0"
    by (intro deliver_completions_stay_zero) simp_all
  moreover have "0 \<le> pendingRequests (deliver \<lparr>pendingRequests = 0, lastActivityTime = t0\<rparr> evs)"
    by (rule deliver_pending_nonneg) simp
  ultimately show ?thesis
    by (simp add: onLoadingFinished_def onLoadingFailed_def onRequestWillBeSent_def)
qed


section \<open>Properties of navigation\<close>

lemmas nav_defs = call_def firstNavigation_def subsequentNavigation_def register_auth_hook_def
  evaluateOnNewDocument_def goto_def resolvePageUrl_def construct_URL_def remove_if_registered_def
  removeScriptToEvaluateOnNewDocument_def evaluate_client_navigation_def new_calls_def Let_def

lemma firstNavigation_registered:
  assumes "resolvePageUrl new_URL cfg pagePath targetUrl = Inr pageUrl"
    and "shouldInjectAuth cfg pageUrl"
    and "evaluateOnNewDocument_result b = None"
  shows "calls (snd (firstNavigation new_URL cfg b pagePath targetUrl p)) =
           calls p @ [EvaluateOnNewDocument (authStorage cfg) (next_identifier p),
                      Goto pageUrl,
                      RemoveScriptToEvaluateOnNewDocument (next_identifier p)]"
    and "scripts (snd (firstNavigation new_URL cfg b pagePath targetUrl p)) =
           filter (\<lambda>sc. fst sc \<noteq> next_identifier p) (scripts p)"
  using assms
  by (simp_all add: firstNavigation_def register_auth_hook_def evaluateOnNewDocument_def
        goto_def remove_if_registered_def removeScriptToEvaluateOnNewDocument_def Let_def
      split: goto_outcome.splits)

lemma firstNavigation_result:
  assumes "resolvePageUrl new_URL cfg pagePath targetUrl = Inr pageUrl"
    and "shouldInjectAuth cfg pageUrl \<longrightarrow> evaluateOnNewDocument_result b = None"
  shows "fst (firstNavigation new_URL cfg b pagePath targetUrl p) =
     (case goto_result b of
        GotoRejects msg \<Rightarrow> Inl (CannotOpenPageError 0 pageUrl (Some msg))
      | GotoResolves resp \<Rightarrow>
          if response_not_ok resp
          then Inl (CannotOpenPageError (response_status resp) pageUrl None)
          else Inr \<lparr>waitTime = DEFAULT_WAIT_TIME cfg +
                 (if isAddOn cfg then COLD_START_EXTRA_WAIT cfg else 0)\<rparr>)"
  using assms
  by (simp add: firstNavigation_def register_auth_hook_def evaluateOnNewDocument_def Let_def
      split: goto_outcome.splits)

text \<open>
  What the source does decide on: the hook is registered on first navigation exactly
  when the configured URL string is a prefix of the destination URL string.
\<close>

lemma firstNavigation_injects_iff_prefix:
  assumes "resolvePageUrl new_URL cfg pagePath targetUrl = Inr pageUrl"
    and "evaluateOnNewDocument_result b = None"
  shows "filter is_injection
           (new_calls p (snd (firstNavigation new_URL cfg b pagePath targetUrl p))) =
         (if prefix (homeAssistantUrl cfg) pageUrl
          then [EvaluateOnNewDocument (authStorage cfg) (next_identifier p)] else [])"
  using assms
  by (simp add: firstNavigation_def register_auth_hook_def evaluateOnNewDocument_def
        goto_def remove_if_registered_def removeScriptToEvaluateOnNewDocument_def Let_def
        new_calls_def is_injection_def shouldInjectAuth_def
      split: goto_outcome.splits)

text \<open>
  Likewise a subsequent navigation never registers a hook, and it issues its one full
  page load exactly when an explicit non-empty URL was given or the configured URL
  string is not a prefix of the current document URL.
\<close>

lemma subsequentNavigation_loads:
  assumes "resolvePageUrl new_URL cfg pagePath targetUrl = Inr pageUrl"
  shows "filter is_injection
           (new_calls p (snd (subsequentNavigation new_URL cfg b pagePath targetUrl p))) = []"
    and "filter is_goto
           (new_calls p (snd (subsequentNavigation new_URL cfg b pagePath targetUrl p))) =
         (if truthy targetUrl \<or> \<not> prefix (homeAssistantUrl cfg) (page_url b)
          then [Goto pageUrl] else [])"
  using assms
  by (auto simp: subsequentNavigation_def goto_def evaluate_client_navigation_def Let_def
        new_calls_def is_injection_def is_goto_def resolvePageUrl_def truthy_def
      split: goto_outcome.splits sum.splits option.splits if_splits)

lemma call_goto_is_resolved:
  assumes "call new_URL cfg b pagePath isFirst targetUrl p = (r, p')"
    and "Goto u \<in> set (new_calls p p')"
  shows "resolvePageUrl new_URL cfg pagePath targetUrl = Inr u"
  using assms
  by (auto simp: nav_defs split: sum.splits option.splits goto_outcome.splits if_splits)

lemma call_transport_failure:
  assumes "call new_URL cfg b pagePath isFirst targetUrl p = (r, p')"
    and "Goto u \<in> set (new_calls p p')"
    and "goto_result b = GotoRejects msg"
  shows "r = Inl (CannotOpenPageError 0 u (Some msg))"
  using assms
  by (auto simp: nav_defs split: sum.splits option.splits if_splits)

lemma call_not_ok_failure:
  assumes "call new_URL cfg b pagePath isFirst targetUrl p = (r, p')"
    and "Goto u \<in> set (new_calls p p')"
    and "goto_result b = GotoResolves (Some resp)" and "\<not> ok resp"
  shows "r = Inl (CannotOpenPageError (status resp) u None)"
  using assms
  by (auto simp: nav_defs response_not_ok_def response_status_def
      split: sum.splits option.splits if_splits)

lemma call_no_response_failure:
  assumes "call new_URL cfg b pagePath isFirst targetUrl p = (r, p')"
    and "Goto u \<in> set (new_calls p p')"
    and "goto_result b = GotoResolves None"
  shows "r = Inl (CannotOpenPageError 0 u None)"
  using assms
  by (auto simp: nav_defs response_not_ok_def response_status_def
      split: sum.splits option.splits if_splits)

lemma call_ok_response_succeeds:
  assumes "call new_URL cfg b pagePath isFirst targetUrl p = (r, p')"
    and "Goto u \<in> set (new_calls p p')"
    and "goto_result b = GotoResolves (Some resp)" and "ok resp"
  shows "\<exists>res. r = Inr res"
  using assms
  by (auto simp: nav_defs response_not_ok_def response_status_def
      split: sum.splits option.splits if_splits)

lemma call_failure_only_from_goto:
  assumes "call new_URL cfg b pagePath isFirst targetUrl p = (r, p')"
    and "r = Inl (CannotOpenPageError st u m)"
  shows "filter is_goto (new_calls p p') = [Goto u] \<and>
         filter is_client_navigation (new_calls p p') = []"
  using assms
  by (auto simp: nav_defs is_goto_def is_client_navigation_def
      split: sum.splits option.splits goto_outcome.splits if_splits)

lemma call_client_navigation_no_failure:
  assumes "call new_URL cfg b pagePath isFirst targetUrl p = (r, p')"
    and "EvaluateClientNavigation x \<in> set (new_calls p p')"
  shows "r \<noteq> Inl (CannotOpenPageError st u m) \<and> filter is_goto (new_calls p p') = []"
  using assms
  by (auto simp: nav_defs is_goto_def
      split: sum.splits option.splits goto_outcome.splits if_splits)

text \<open>
  What a call does, read off its inputs alone.  A first navigation whose destination
  resolves and whose hook registration (if any) goes through loads that destination
  once, and its result is decided by what the load does.
\<close>

lemma call_first_from_inputs:
  assumes "call new_URL cfg b pagePath True targetUrl p = (r, p')"
    and "resolvePageUrl new_URL cfg pagePath targetUrl = Inr pageUrl"
    and "shouldInjectAuth cfg pageUrl \<longrightarrow> evaluateOnNewDocument_result b = None"
  shows "filter is_goto (new_calls p p') = [Goto pageUrl] \<and>
         filter is_client_navigation (new_calls p p') = [] \<and>
         r = (case goto_result b of
                GotoRejects msg \<Rightarrow> Inl (CannotOpenPageError 0 pageUrl (Some msg))
              | GotoResolves None \<Rightarrow> Inl (CannotOpenPageError 0 pageUrl None)
              | GotoResolves (Some resp) \<Rightarrow>
                  if ok resp
                  then Inr \<lparr>waitTime = DEFAULT_WAIT_TIME cfg +
                         (if isAddOn cfg then COLD_START_EXTRA_WAIT cfg else 0)\<rparr>
                  else Inl (CannotOpenPageError (status resp) pageUrl None))"
  using assms
  by (auto simp: call_def firstNavigation_def register_auth_hook_def
        evaluateOnNewDocument_def goto_def remove_if_registered_def
        removeScriptToEvaluateOnNewDocument_def new_calls_def Let_def
        is_goto_def is_client_navigation_def response_not_ok_def response_status_def
      split: option.splits goto_outcome.splits if_splits)

text \<open>
  A subsequent navigation with an explicit non-empty URL, or with a current document
  that the prefix test places off the configured URL, does the same without a hook.
\<close>

lemma call_subsequent_load_from_inputs:
  assumes "call new_URL cfg b pagePath False targetUrl p = (r, p')"
    and "truthy targetUrl \<or> \<not> prefix (homeAssistantUrl cfg) (page_url b)"
    and "resolvePageUrl new_URL cfg pagePath targetUrl = Inr pageUrl"
  shows "new_calls p p' = [Goto pageUrl] \<and>
         r = (case goto_result b of
                GotoRejects msg \<Rightarrow> Inl (CannotOpenPageError 0 pageUrl (Some msg))
              | GotoResolves None \<Rightarrow> Inl (CannotOpenPageError 0 pageUrl None)
              | GotoResolves (Some resp) \<Rightarrow>
                  if ok resp
                  then Inr \<lparr>waitTime = DEFAULT_WAIT_TIME cfg\<rparr>
                  else Inl (CannotOpenPageError (status resp) pageUrl None))"
  using assms
  by (auto simp: call_def subsequentNavigation_def goto_def new_calls_def Let_def
        response_not_ok_def response_status_def
      split: option.splits goto_outcome.splits if_splits)

text \<open>Otherwise a subsequent navigation loads nothing and routes client-side.\<close>

lemma call_client_side_from_inputs:
  assumes "call new_URL cfg b pagePath False targetUrl p = (r, p')"
    and "\<not> truthy targetUrl" and "prefix (homeAssistantUrl cfg) (page_url b)"
  shows "filter is_goto (new_calls p p') = [] \<and>
         r \<noteq> Inl (CannotOpenPageError st u m) \<and>
         (new_URL pagePath (homeAssistantUrl cfg) \<noteq> None \<longrightarrow>
            new_calls p p' = [EvaluateClientNavigation pagePath])"
  using assms
  by (auto simp: call_def subsequentNavigation_def evaluate_client_navigation_def
        construct_URL_def new_calls_def Let_def is_goto_def
      split: option.splits sum.splits if_splits)

text \<open>
  Claim C1, evaluated at the configuration of the repository's own unit test
  "injects auth when HA URL has explicit port 80": base URL \<open>http://homeassistant:80\<close>,
  path \<open>/lovelace/0\<close>, first navigation, a page that answers 200.  The destination
  \<open>http://homeassistant/lovelace/0\<close> has the configured origin once the default port
  is normalised away, and the test expects one registration; the source compares the
  strings by prefix, registers nothing and only issues the page load.
\<close>

theorem firstNavigation_default_port_not_injected:
  "call new_URL_toString
     \<lparr>homeAssistantUrl = ''http://homeassistant:80'',
      authStorage = [(''hassTokens'', ''{}'')],
      DEFAULT_WAIT_TIME = 750, COLD_START_EXTRA_WAIT = 2500, isAddOn = False\<rparr>
     \<lparr>page_url = ''about:blank'', evaluateOnNewDocument_result = None,
      goto_result = GotoResolves (Some \<lparr>ok = True, status = 200\<rparr>), evaluate_result = None\<rparr>
     ''/lovelace/0'' True None
     \<lparr>scripts = [], next_identifier = 0, calls = []\<rparr>
   = (Inr \<lparr>waitTime = 750\<rparr>,
      \<lparr>scripts = [], next_identifier = 0,
       calls = [Goto ''http://homeassistant/lovelace/0'']\<rparr>) \<and>
   spec_same_origin ''http://homeassistant/lovelace/0'' ''http://homeassistant:80''"
  by code_simp

text \<open>
  The prefix test also errs the other way: with base \<open>http://homeassistant\<close> and the
  explicit external URL \<open>http://homeassistant.example.org/page\<close>, whose origin differs,
  the hook is registered.
\<close>

lemma firstNavigation_other_origin_injected:
  "call new_URL_toString
     \<lparr>homeAssistantUrl = ''http://homeassistant'',
      authStorage = [(''hassTokens'', ''{}'')],
      DEFAULT_WAIT_TIME = 750, COLD_START_EXTRA_WAIT = 2500, isAddOn = False\<rparr>
     \<lparr>page_url = ''about:blank'', evaluateOnNewDocument_result = None,
      goto_result = GotoResolves (Some \<lparr>ok = True, status = 200\<rparr>), evaluate_result = None\<rparr>
     ''/unused'' True (Some ''http://homeassistant.example.org/page'')
     \<lparr>scripts = [], next_identifier = 0, calls = []\<rparr>
   = (Inr \<lparr>waitTime = 750\<rparr>,
      \<lparr>scripts = [], next_identifier = 1,
       calls = [EvaluateOnNewDocument [(''hassTokens'', ''{}'')] 0,
                Goto ''http://homeassistant.example.org/page'',
                RemoveScriptToEvaluateOnNewDocument 0]\<rparr>) \<and>
   \<not> spec_same_origin ''http://homeassistant.example.org/page'' ''http://homeassistant''"
  by code_simp

text \<open>
  Claim C2.  Whenever the first navigation registered the injection hook (the
  destination resolved, the source decided to inject, and the registration itself
  went through), then whatever \<open>page.goto\<close> does -- resolve to an ok response, reject,
  resolve to a response that is not ok or to none -- the navigation made exactly the
  three calls register, goto, remove, in this order: the hook is removed exactly once,
  after the load settled, and is not among the installed scripts when the navigation
  returns or raises.
\<close>

theorem firstNavigation_removes_hook:
  assumes "resolvePageUrl new_URL cfg pagePath targetUrl = Inr pageUrl"
    and "shouldInjectAuth cfg pageUrl"
    and "evaluateOnNewDocument_result b = None"
    and "firstNavigation new_URL cfg b pagePath targetUrl p = (r, p')"
  shows "new_calls p p' =
           [EvaluateOnNewDocument (authStorage cfg) (next_identifier p),
            Goto pageUrl,
            RemoveScriptToEvaluateOnNewDocument (next_identifier p)] \<and>
         length (filter is_injection (new_calls p p')) = 1 \<and>
         length (filter is_removal (new_calls p p')) = 1 \<and>
         next_identifier p \<notin> fst ` set (scripts p') \<and>
         r = (case goto_result b of
                GotoRejects msg \<Rightarrow> Inl (CannotOpenPageError 0 pageUrl (Some msg))
              | GotoResolves resp \<Rightarrow>
                  if response_not_ok resp
                  then Inl (CannotOpenPageError (response_status resp) pageUrl None)
                  else Inr \<lparr>waitTime = DEFAULT_WAIT_TIME cfg +
                         (if isAddOn cfg then COLD_START_EXTRA_WAIT cfg else 0)\<rparr>)"
proof -
  from assms(4) have p': "p' = snd (firstNavigation new_URL cfg b pagePath targetUrl p)"
    and r: "r = fst (firstNavigation new_URL cfg b pagePath targetUrl p)" by simp_all
  have c: "new_calls p p' =
           [EvaluateOnNewDocument (authStorage cfg) (next_identifier p),
            Goto pageUrl,
            RemoveScriptToEvaluateOnNewDocument (next_identifier p)]"
    unfolding p' new_calls_def firstNavigation_registered(1) [OF assms(1-3)] by simp
  have s: "next_identifier p \<notin> fst ` set (scripts p')"
    unfolding p' firstNavigation_registered(2) [OF assms(1-3)] by auto
  have "r = (case goto_result b of
                GotoRejects msg \<Rightarrow> Inl (CannotOpenPageError 0 pageUrl (Some msg))
              | GotoResolves resp \<Rightarrow>
                  if response_not_ok resp
                  then Inl (CannotOpenPageError (response_status resp) pageUrl None)
                  else Inr \<lparr>waitTime = DEFAULT_WAIT_TIME cfg +
                         (if isAddOn cfg then COLD_START_EXTRA_WAIT cfg else 0)\<rparr>)"
    unfolding r using firstNavigation_result [OF assms(1)] assms(3) by simp
  with c s show ?thesis
    by (simp add: is_injection_def is_removal_def)
qed

theorem firstNavigation_removes_hook_witness:
  "new_calls \<lparr>scripts = [], next_identifier = 0, calls = []\<rparr>
     (snd (firstNavigation new_URL_toString
       \<lparr>homeAssistantUrl = ''http://homeassistant:8123'',
        authStorage = [(''hassTokens'', ''{}'')],
        DEFAULT_WAIT_TIME = 750, COLD_START_EXTRA_WAIT = 2500, isAddOn = False\<rparr>
       \<lparr>page_url = ''about:blank'', evaluateOnNewDocument_result = None,
        goto_result = GotoRejects ''net::ERR_NAME_NOT_RESOLVED'', evaluate_result = None\<rparr>
       ''/lovelace/0'' None
       \<lparr>scripts = [], next_identifier = 0, calls = []\<rparr>))
   = [EvaluateOnNewDocument [(''hassTokens'', ''{}'')] 0,
      Goto ''http://homeassistant:8123/lovelace/0'',
      RemoveScriptToEvaluateOnNewDocument 0] \<and>
   fst (firstNavigation new_URL_toString
       \<lparr>homeAssistantUrl = ''http://homeassistant:8123'',
        authStorage = [(''hassTokens'', ''{}'')],
        DEFAULT_WAIT_TIME = 750, COLD_START_EXTRA_WAIT = 2500, isAddOn = False\<rparr>
       \<lparr>page_url = ''about:blank'', evaluateOnNewDocument_result = None,
        goto_result = GotoRejects ''net::ERR_NAME_NOT_RESOLVED'', evaluate_result = None\<rparr>
       ''/lovelace/0'' None
       \<lparr>scripts = [], next_identifier = 0, calls = []\<rparr>)
   = Inl (CannotOpenPageError 0 ''http://homeassistant:8123/lovelace/0''
            (Some ''net::ERR_NAME_NOT_RESOLVED''))"
proof -
  let ?cfg = "\<lparr>homeAssistantUrl = ''http://homeassistant:8123'',
      authStorage = [(''hassTokens'', ''{}'')],
      DEFAULT_WAIT_TIME = 750, COLD_START_EXTRA_WAIT = 2500, isAddOn = False\<rparr>"
  let ?b = "\<lparr>page_url = ''about:blank'', evaluateOnNewDocument_result = None,
      goto_result = GotoRejects ''net::ERR_NAME_NOT_RESOLVED'', evaluate_result = None\<rparr>"
  let ?p = "\<lparr>scripts = [], next_identifier = 0, calls = []\<rparr>"
  let ?u = "''http://homeassistant:8123/lovelace/0''"
  let ?run = "firstNavigation new_URL_toString ?cfg ?b ''/lovelace/0'' None ?p"
  have h1: "resolvePageUrl new_URL_toString ?cfg ''/lovelace/0'' None = Inr ?u"
    by code_simp
  have h2: "shouldInjectAuth ?cfg ?u"
    by code_simp
  have h3: "evaluateOnNewDocument_result ?b = None"
    by simp
  have h4: "?run = (fst ?run, snd ?run)"
    by simp
  from firstNavigation_removes_hook [OF h1 h2 h3 h4] show ?thesis
    by simp
qed

text \<open>
  Claim C4.  For every call of NavigateToPage, from its inputs: on a first navigation
  (destination resolved, hook registration not rejected) and on a subsequent navigation
  that takes the full-page-load path (destination resolved), the call issues exactly
  one \<open>page.goto\<close>, to the resolved destination URL, and whenever that load fails the
  call raises \<open>CannotOpenPageError\<close> carrying that URL: with status 0 and the
  transport's message when the load rejects before any response, with status 0 when it
  resolves to no response, and with the response's status when the response is not ok;
  when the response is ok the call returns its wait time.  A subsequent navigation that
  takes the client-side path issues no \<open>page.goto\<close> and raises no
  \<open>CannotOpenPageError\<close>.  Read off the result instead: a \<open>CannotOpenPageError\<close> is
  raised only by a call that issued exactly one full page load and no client-side
  navigation, and every \<open>page.goto\<close> a call issues goes to the resolved destination.
\<close>

theorem navigation_failure_status_and_url:
  assumes "call new_URL cfg b pagePath isFirstNavigation targetUrl p = (r, p')"
  shows "(isFirstNavigation \<and>
          resolvePageUrl new_URL cfg pagePath targetUrl = Inr pageUrl \<and>
          (shouldInjectAuth cfg pageUrl \<longrightarrow> evaluateOnNewDocument_result b = None) \<longrightarrow>
            filter is_goto (new_calls p p') = [Goto pageUrl] \<and>
            filter is_client_navigation (new_calls p p') = [] \<and>
            r = (case goto_result b of
                   GotoRejects msg \<Rightarrow> Inl (CannotOpenPageError 0 pageUrl (Some msg))
                 | GotoResolves None \<Rightarrow> Inl (CannotOpenPageError 0 pageUrl None)
                 | GotoResolves (Some resp) \<Rightarrow>
                     if ok resp
                     then Inr \<lparr>waitTime = DEFAULT_WAIT_TIME cfg +
                            (if isAddOn cfg then COLD_START_EXTRA_WAIT cfg else 0)\<rparr>
                     else Inl (CannotOpenPageError (status resp) pageUrl None))) \<and>
         (\<not> isFirstNavigation \<and>
          (truthy targetUrl \<or> \<not> prefix (homeAssistantUrl cfg) (page_url b)) \<and>
          resolvePageUrl new_URL cfg pagePath targetUrl = Inr pageUrl \<longrightarrow>
            new_calls p p' = [Goto pageUrl] \<and>
            r = (case goto_result b of
                   GotoRejects msg \<Rightarrow> Inl (CannotOpenPageError 0 pageUrl (Some msg))
                 | GotoResolves None \<Rightarrow> Inl (CannotOpenPageError 0 pageUrl None)
                 | GotoResolves (Some resp) \<Rightarrow>
                     if ok resp
                     then Inr \<lparr>waitTime = DEFAULT_WAIT_TIME cfg\<rparr>
                     else Inl (CannotOpenPageError (status resp) pageUrl None))) \<and>
         (\<not> isFirstNavigation \<and> \<not> truthy targetUrl \<and>
          prefix (homeAssistantUrl cfg) (page_url b) \<longrightarrow>
            filter is_goto (new_calls p p') = [] \<and>
            (\<forall>st u m. r \<noteq> Inl (CannotOpenPageError st u m)) \<and>
            (new_URL pagePath (homeAssistantUrl cfg) \<noteq> None \<longrightarrow>
               new_calls p p' = [EvaluateClientNavigation pagePath])) \<and>
         (\<forall>u. Goto u \<in> set (new_calls p p') \<longrightarrow>
            resolvePageUrl new_URL cfg pagePath targetUrl = Inr u \<and>
            (\<forall>msg. goto_result b = GotoRejects msg \<longrightarrow>
               r = Inl (CannotOpenPageError 0 u (Some msg))) \<and>
            (\<forall>resp. goto_result b = GotoResolves (Some resp) \<and> \<not> ok resp \<longrightarrow>
               r = Inl (CannotOpenPageError (status resp) u None)) \<and>
            (goto_result b = GotoResolves None \<longrightarrow>
               r = Inl (CannotOpenPageError 0 u None)) \<and>
            (\<forall>resp. goto_result b = GotoResolves (Some resp) \<and> ok resp \<longrightarrow>
               (\<exists>res. r = Inr res))) \<and>
         (\<forall>st u m. r = Inl (CannotOpenPageError st u m) \<longrightarrow>
            filter is_goto (new_calls p p') = [Goto u] \<and>
            filter is_client_navigation (new_calls p p') = []) \<and>
         (\<forall>x. EvaluateClientNavigation x \<in> set (new_calls p p') \<longrightarrow>
            (\<forall>st u m. r \<noteq> Inl (CannotOpenPageError st u m)) \<and>
            filter is_goto (new_calls p p') = [])"
proof -
  have first: "filter is_goto (new_calls p p') = [Goto pageUrl] \<and>
            filter is_client_navigation (new_calls p p') = [] \<and>
            r = (case goto_result b of
                   GotoRejects msg \<Rightarrow> Inl (CannotOpenPageError 0 pageUrl (Some msg))
                 | GotoResolves None \<Rightarrow> Inl (CannotOpenPageError 0 pageUrl None)
                 | GotoResolves (Some resp) \<Rightarrow>
                     if ok resp
                     then Inr \<lparr>waitTime = DEFAULT_WAIT_TIME cfg +
                            (if isAddOn cfg then COLD_START_EXTRA_WAIT cfg else 0)\<rparr>
                     else Inl (CannotOpenPageError (status resp) pageUrl None))"
    if "isFirstNavigation"
      and "resolvePageUrl new_URL cfg pagePath targetUrl = Inr pageUrl"
      and "shouldInjectAuth cfg pageUrl \<longrightarrow> evaluateOnNewDocument_result b = None"
    using call_first_from_inputs [of new_URL cfg b pagePath targetUrl p r p' pageUrl]
      assms that by simp
  have load: "new_calls p p' = [Goto pageUrl] \<and>
            r = (case goto_result b of
                   GotoRejects msg \<Rightarrow> Inl (CannotOpenPageError 0 pageUrl (Some msg))
                 | GotoResolves None \<Rightarrow> Inl (CannotOpenPageError 0 pageUrl None)
                 | GotoResolves (Some resp) \<Rightarrow>
                     if ok resp
                     then Inr \<lparr>waitTime = DEFAULT_WAIT_TIME cfg\<rparr>
                     else Inl (CannotOpenPageError (status resp) pageUrl None))"
    if "\<not> isFirstNavigation"
      and "truthy targetUrl \<or> \<not> prefix (homeAssistantUrl cfg) (page_url b)"
      and "resolvePageUrl new_URL cfg pagePath targetUrl = Inr pageUrl"
    using call_subsequent_load_from_inputs [of new_URL cfg b pagePath targetUrl p r p' pageUrl]
      assms that by simp
  have client: "filter is_goto (new_calls p p') = [] \<and>
            (\<forall>st u m. r \<noteq> Inl (CannotOpenPageError st u m)) \<and>
            (new_URL pagePath (homeAssistantUrl cfg) \<noteq> None \<longrightarrow>
               new_calls p p' = [EvaluateClientNavigation pagePath])"
    if "\<not> isFirstNavigation" and "\<not> truthy targetUrl"
      and "prefix (homeAssistantUrl cfg) (page_url b)"
    using call_client_side_from_inputs [of new_URL cfg b pagePath targetUrl p r p']
      assms that by simp
  from first load client
    call_goto_is_resolved [OF assms] call_transport_failure [OF assms]
    call_not_ok_failure [OF assms] call_no_response_failure [OF assms]
    call_ok_response_succeeds [OF assms] call_failure_only_from_goto [OF assms]
    call_client_navigation_no_failure [OF assms]
  show ?thesis by blast
qed

theorem navigation_failure_status_and_url_witness:
  "fst (call new_URL_toString
       \<lparr>homeAssistantUrl = ''http://homeassistant:8123'',
        authStorage = [(''hassTokens'', ''{}'')],
        DEFAULT_WAIT_TIME = 750, COLD_START_EXTRA_WAIT = 2500, isAddOn = False\<rparr>
       \<lparr>page_url = ''about:blank'', evaluateOnNewDocument_result = None,
        goto_result = GotoRejects ''net::ERR_CONNECTION_REFUSED'', evaluate_result = None\<rparr>
       ''/lovelace/0'' True None
       \<lparr>scripts = [], next_identifier = 0, calls = []\<rparr>)
   = Inl (CannotOpenPageError 0 ''http://homeassistant:8123/lovelace/0''
            (Some ''net::ERR_CONNECTION_REFUSED''))"
proof -
  let ?cfg = "\<lparr>homeAssistantUrl = ''http://homeassistant:8123'',
      authStorage = [(''hassTokens'', ''{}'')],
      DEFAULT_WAIT_TIME = 750, COLD_START_EXTRA_WAIT = 2500, isAddOn = False\<rparr>"
  let ?b = "\<lparr>page_url = ''about:blank'', evaluateOnNewDocument_result = None,
      goto_result = GotoRejects ''net::ERR_CONNECTION_REFUSED'', evaluate_result = None\<rparr>"
  let ?p = "\<lparr>scripts = [], next_identifier = 0, calls = []\<rparr>"
  let ?u = "''http://homeassistant:8123/lovelace/0''"
  let ?run = "call new_URL_toString ?cfg ?b ''/lovelace/0'' True None ?p"
  have run: "?run = (fst ?run, snd ?run)"
    by simp
  have res: "resolvePageUrl new_URL_toString ?cfg ''/lovelace/0'' None = Inr ?u"
    by code_simp
  have reg: "shouldInjectAuth ?cfg ?u \<longrightarrow> evaluateOnNewDocument_result ?b = None"
    by simp
  from navigation_failure_status_and_url [OF run, where pageUrl = ?u] res reg
  have "fst ?run = (case goto_result ?b of
                   GotoRejects msg \<Rightarrow> Inl (CannotOpenPageError 0 ?u (Some msg))
                 | GotoResolves None \<Rightarrow> Inl (CannotOpenPageError 0 ?u None)
                 | GotoResolves (Some resp) \<Rightarrow>
                     if ok resp
                     then Inr \<lparr>waitTime = DEFAULT_WAIT_TIME ?cfg +
                            (if isAddOn ?cfg then COLD_START_EXTRA_WAIT ?cfg else 0)\<rparr>
                     else Inl (CannotOpenPageError (status resp) ?u None))"
    by blast
  then show ?thesis by simp
qed

text \<open>
  Claim C3, evaluated on the session the first navigation of the port-80 configuration
  leaves behind: base URL \<open>http://homeassistant:80\<close>, current document
  \<open>http://homeassistant/lovelace/0\<close> (on the configured origin), no explicit URL.  The
  claim asks for a client-side transition and no page load; the source compares the
  strings by prefix and issues a full page load.
\<close>

theorem subsequentNavigation_default_port_full_reload:
  "call new_URL_toString
     \<lparr>homeAssistantUrl = ''http://homeassistant:80'',
      authStorage = [(''hassTokens'', ''{}'')],
      DEFAULT_WAIT_TIME = 750, COLD_START_EXTRA_WAIT = 2500, isAddOn = False\<rparr>
     \<lparr>page_url = ''http://homeassistant/lovelace/0'', evaluateOnNewDocument_result = None,
      goto_result = GotoResolves (Some \<lparr>ok = True, status = 200\<rparr>), evaluate_result = None\<rparr>
     ''/lovelace/1'' False None
     \<lparr>scripts = [], next_identifier = 0, calls = []\<rparr>
   = (Inr \<lparr>waitTime = 750\<rparr>,
      \<lparr>scripts = [], next_identifier = 0,
       calls = [Goto ''http://homeassistant/lovelace/1'']\<rparr>) \<and>
   spec_same_origin ''http://homeassistant/lovelace/0'' ''http://homeassistant:80''"
  by code_simp

text \<open>
  And the other way round: a current document on another origin whose URL string
  happens to extend the configured one is routed client-side.
\<close>

lemma subsequentNavigation_other_origin_client_side:
  "call new_URL_toString
     \<lparr>homeAssistantUrl = ''http://homeassistant'',
      authStorage = [(''hassTokens'', ''{}'')],
      DEFAULT_WAIT_TIME = 750, COLD_START_EXTRA_WAIT = 2500, isAddOn = False\<rparr>
     \<lparr>page_url = ''http://homeassistant.example.org/page'', evaluateOnNewDocument_result = None,
      goto_result = GotoResolves (Some \<lparr>ok = True, status = 200\<rparr>), evaluate_result = None\<rparr>
     ''/lovelace/1'' False None
     \<lparr>scripts = [], next_identifier = 0, calls = []\<rparr>
   = (Inr \<lparr>waitTime = 750\<rparr>,
      \<lparr>scripts = [], next_identifier = 0,
       calls = [EvaluateClientNavigation ''/lovelace/1'']\<rparr>) \<and>
   \<not> spec_same_origin ''http://homeassistant.example.org/page'' ''http://homeassistant''"
  by code_simp


section \<open>Properties of the readiness detectors\<close>

subsection \<open>Event delivery\<close>

lemma deliver_append: "deliver s (xs @ ys) = deliver (deliver s xs) ys"
  by (simp add: deliver_def)

lemma deliver_Nil [simp]: "deliver s [] = s"
  by (simp add: deliver_def)

subsection \<open>The idle loop\<close>

text \<open>
  If the loop logged that the network is idle, it did so in an iteration whose loop
  test was below the timeout, with the counter at 0 after all events delivered so far
  and the last activity at least the quiet window back.
\<close>

lemma idle_loop_declares:
  assumes "idle_loop timeout idleTime start ch s rs = Some (res, log)"
    and "NetworkIdleAfter a \<in> set log"
  shows "\<exists>n<length rs.
           pendingRequests (deliver s (concat (map during_sleep (take n rs)))) = 0 \<and>
           idleTime \<le> now_check (rs ! n) -
              lastActivityTime (deliver s (concat (map during_sleep (take n rs)))) \<and>
           now_cond (rs ! n) - start < timeout \<and>
           a = now_ret (rs ! n) - start \<and>
           (\<forall>v. res = Inr v \<longrightarrow> v = a)"
  using assms
proof (induction rs arbitrary: s)
  case Nil
  then show ?case by simp
next
  case (Cons r rs)
  from Cons.prems have live: "now_cond r - start < timeout"
    by (auto simp: Let_def split: if_splits option.splits)
  show ?case
  proof (cases "pendingRequests s = 0 \<and> idleTime \<le> now_check r - lastActivityTime s")
    case True
    with Cons.prems live have "a = now_ret r - start" and "\<forall>v. res = Inr v \<longrightarrow> v = a"
      by (auto simp: Let_def split: option.splits)
    with True live show ?thesis
      by (intro exI [of _ "0::nat"]) simp
  next
    case False
    with Cons.prems live
    have run: "idle_loop timeout idleTime start ch (deliver s (during_sleep r)) rs = Some (res, log)"
      by (auto simp: Let_def)
    from Cons.IH [OF run Cons.prems(2)] obtain n where "n < length rs"
      and "pendingRequests (deliver (deliver s (during_sleep r))
              (concat (map during_sleep (take n rs)))) = 0"
      and "idleTime \<le> now_check (rs ! n) -
              lastActivityTime (deliver (deliver s (during_sleep r))
                 (concat (map during_sleep (take n rs))))"
      and "now_cond (rs ! n) - start < timeout"
      and "a = now_ret (rs ! n) - start"
      and "\<forall>v. res = Inr v \<longrightarrow> v = a"
      by blast
    then show ?thesis
      by (intro exI [of _ "Suc n"]) (simp add: deliver_append)
  qed
qed

text \<open>If it did not, it left through the loop condition, at or after the timeout.\<close>

lemma idle_loop_not_declared:
  assumes "idle_loop timeout idleTime start ch s rs = Some (res, log)"
    and "\<forall>a. NetworkIdleAfter a \<notin> set log"
  shows "\<exists>r \<in> set rs. timeout \<le> now_cond r - start \<and> (\<forall>v. res = Inr v \<longrightarrow> v = now_ret r - start)"
  using assms
proof (induction rs arbitrary: s)
  case Nil
  then show ?case by simp
next
  case (Cons r rs)
  show ?case
  proof (cases "now_cond r - start < timeout")
    case False
    with Cons.prems show ?thesis
      by (auto simp: Let_def split: option.splits)
  next
    case True
    with Cons.prems
    have "idle_loop timeout idleTime start ch (deliver s (during_sleep r)) rs = Some (res, log)"
      by (auto simp: Let_def split: if_splits option.splits)
    from Cons.IH [OF this Cons.prems(2)] show ?thesis
      by auto
  qed
qed

lemma idle_loop_returns:
  assumes "\<exists>r \<in> set rs. timeout \<le> now_cond r - start"
  shows "\<exists>res log. idle_loop timeout idleTime start ch s rs = Some (res, log)"
  using assms
proof (induction rs arbitrary: s)
  case Nil
  then show ?case by simp
next
  case (Cons r rs)
  show ?case
  proof (cases "now_cond r - start < timeout")
    case False
    then show ?thesis
      by (auto simp: Let_def split: option.splits)
  next
    case True
    with Cons.prems have "\<exists>r \<in> set rs. timeout \<le> now_cond r - start"
      by auto
    from Cons.IH [OF this] True show ?thesis
      by (auto simp: Let_def split: option.splits)
  qed
qed

lemma WaitForNetworkIdle_call_no_error:
  assumes "WaitForNetworkIdle_call timeout idleTime start ch rs = Some (res, log)"
  shows "\<exists>v. res = Inr v"
  using assms
  by (auto simp: WaitForNetworkIdle_call_def split: option.splits sum.splits prod.splits)

lemma sorted_push:
  assumes "sorted ((c - start) # xs)" and "(t::int) \<le> c"
  shows "sorted ((t - start) # (c - start) # xs)"
  using assms by auto

lemma idle_loop_run:
  assumes "clock_ok t rs"
    and "idle_loop timeout idleTime start ch s rs = Some (res, log)"
  shows "\<exists>n<length rs.
           (\<forall>w. elapsed_at start (rs ! n) \<le> w \<longrightarrow>
              sorted ((t - start) # map (elapsed_at start) (take (Suc n) rs) @ [w])) \<and>
           (\<forall>r \<in> set (take n rs). elapsed_at start r < timeout) \<and>
           elapsed_at start (rs ! n) \<le> now_ret (rs ! n) - start \<and>
           (elapsed_at start (rs ! n) < timeout \<and>
              log = [NetworkIdleAfter (now_ret (rs ! n) - start)] \<and>
              (res = Inr (now_ret (rs ! n) - start) \<or> (\<exists>msg. res = Inl msg)) \<or>
            timeout \<le> elapsed_at start (rs ! n) \<and>
              ((\<exists>pend. log = [NetworkIdleTimeoutAfter (now_ret (rs ! n) - start) pend]) \<and>
                 res = Inr (now_ret (rs ! n) - start) \<or>
               log = [] \<and> (\<exists>msg. res = Inl msg)))"
  using assms
proof (induction rs arbitrary: s t)
  case Nil
  then show ?case by simp
next
  case (Cons r rs)
  from Cons.prems(1) have t: "t \<le> now_cond r" "now_cond r \<le> now_ret r"
    and ok: "clock_ok (now_cond r) rs"
    by simp_all
  let ?idle = "pendingRequests s = 0 \<and> idleTime \<le> now_check r - lastActivityTime s"
  show ?case
  proof (cases "now_cond r - start < timeout \<and> \<not> ?idle")
    case False
    with Cons.prems(2) t show ?thesis
      by (intro exI [of _ "0::nat"])
         (auto simp: Let_def elapsed_at_def split: option.splits if_splits)
  next
    case True
    with Cons.prems(2)
    have run: "idle_loop timeout idleTime start ch (deliver s (during_sleep r)) rs = Some (res, log)"
      by (auto simp: Let_def)
    from Cons.IH [OF ok run] obtain n where n: "n < length rs"
      and so: "\<forall>w. elapsed_at start (rs ! n) \<le> w \<longrightarrow>
              sorted ((now_cond r - start) # map (elapsed_at start) (take (Suc n) rs) @ [w])"
      and rest: "(\<forall>r \<in> set (take n rs). elapsed_at start r < timeout)"
         "elapsed_at start (rs ! n) \<le> now_ret (rs ! n) - start"
         "(elapsed_at start (rs ! n) < timeout \<and>
              log = [NetworkIdleAfter (now_ret (rs ! n) - start)] \<and>
              (res = Inr (now_ret (rs ! n) - start) \<or> (\<exists>msg. res = Inl msg)) \<or>
            timeout \<le> elapsed_at start (rs ! n) \<and>
              ((\<exists>pend. log = [NetworkIdleTimeoutAfter (now_ret (rs ! n) - start) pend]) \<and>
                 res = Inr (now_ret (rs ! n) - start) \<or>
               log = [] \<and> (\<exists>msg. res = Inl msg)))"
      by blast
    have "\<forall>w. elapsed_at start (rs ! n) \<le> w \<longrightarrow>
       sorted ((t - start) # map (elapsed_at start) (take (Suc (Suc n)) (r # rs)) @ [w])"
    proof (intro allI impI)
      fix w assume "elapsed_at start (rs ! n) \<le> w"
      with so have "sorted ((now_cond r - start) # map (elapsed_at start) (take (Suc n) rs) @ [w])"
        by blast
      from sorted_push [OF this t(1)]
      show "sorted ((t - start) # map (elapsed_at start) (take (Suc (Suc n)) (r # rs)) @ [w])"
        by (simp add: elapsed_at_def)
    qed
    moreover from True have "elapsed_at start r < timeout"
      by (simp add: elapsed_at_def)
    ultimately show ?thesis using n rest
      by (intro exI [of _ "Suc n"]) simp
  qed
qed

lemma WaitForNetworkIdle_call_attach_failure:
  assumes "attach_result ch = Some msg"
  shows "WaitForNetworkIdle_call timeout idleTime start ch irs =
           Some (Inr (now_catch ch - start), [NetworkIdleUnavailable msg])"
  using assms by (simp add: WaitForNetworkIdle_call_def WaitForNetworkIdle_try_def)

lemma WaitForNetworkIdle_call_returns:
  assumes "\<exists>r \<in> set irs. timeout \<le> now_cond r - start"
  shows "\<exists>v log. WaitForNetworkIdle_call timeout idleTime start ch irs = Some (Inr v, log)"
proof (cases "attach_result ch")
  case (Some msg)
  then show ?thesis
    by (simp add: WaitForNetworkIdle_call_attach_failure)
next
  case None
  from idle_loop_returns [OF assms] obtain x log0 where
    "idle_loop timeout idleTime start ch
       \<lparr>pendingRequests = 0, lastActivityTime = now_attached ch\<rparr> irs = Some (x, log0)"
    by blast
  with None show ?thesis
    by (cases x) (simp_all add: WaitForNetworkIdle_call_def WaitForNetworkIdle_try_def)
qed

lemma WaitForNetworkIdle_run:
  assumes ok: "clock_ok start irs"
    and c1: "\<forall>r \<in> set irs. now_cond r \<le> now_catch ch"
    and att: "attach_result ch = None"
    and call: "WaitForNetworkIdle_call timeout idleTime start ch irs = Some (Inr v, log)"
  shows "\<exists>n<length irs.
           sorted (0 # map (elapsed_at start) (take (Suc n) irs) @ [v]) \<and>
           (\<forall>r \<in> set (take n irs). elapsed_at start r < timeout) \<and>
           (elapsed_at start (irs ! n) < timeout \<and>
              (log = [NetworkIdleAfter v] \<and> v = now_ret (irs ! n) - start \<or>
               (\<exists>msg. log = [NetworkIdleAfter (now_ret (irs ! n) - start),
                              NetworkIdleUnavailable msg]) \<and>
                 v = now_catch ch - start) \<or>
            timeout \<le> elapsed_at start (irs ! n) \<and> timeout \<le> v \<and>
              ((\<exists>pend. log = [NetworkIdleTimeoutAfter v pend]) \<and>
                 v = now_ret (irs ! n) - start \<or>
               (\<exists>msg. log = [NetworkIdleUnavailable msg]) \<and> v = now_catch ch - start))"
proof -
  let ?s0 = "\<lparr>pendingRequests = 0, lastActivityTime = now_attached ch\<rparr>"
  from att call obtain x log0 where
    loop: "idle_loop timeout idleTime start ch ?s0 irs = Some (x, log0)"
    and out: "(x = Inr v \<and> log = log0) \<or>
              (\<exists>msg. x = Inl msg \<and> log = log0 @ [NetworkIdleUnavailable msg] \<and>
                     v = now_catch ch - start)"
    by (auto simp: WaitForNetworkIdle_call_def WaitForNetworkIdle_try_def
        split: option.splits sum.splits prod.splits)
  from idle_loop_run [OF ok loop] obtain n where n: "n < length irs"
    and so: "\<forall>w. elapsed_at start (irs ! n) \<le> w \<longrightarrow>
            sorted ((start - start) # map (elapsed_at start) (take (Suc n) irs) @ [w])"
    and below: "\<forall>r \<in> set (take n irs). elapsed_at start r < timeout"
    and ret: "elapsed_at start (irs ! n) \<le> now_ret (irs ! n) - start"
    and how: "(elapsed_at start (irs ! n) < timeout \<and>
              log0 = [NetworkIdleAfter (now_ret (irs ! n) - start)] \<and>
              (x = Inr (now_ret (irs ! n) - start) \<or> (\<exists>msg. x = Inl msg)) \<or>
            timeout \<le> elapsed_at start (irs ! n) \<and>
              ((\<exists>pend. log0 = [NetworkIdleTimeoutAfter (now_ret (irs ! n) - start) pend]) \<and>
                 x = Inr (now_ret (irs ! n) - start) \<or>
               log0 = [] \<and> (\<exists>msg. x = Inl msg)))"
    by blast
  from n have "irs ! n \<in> set irs" by simp
  with c1 have cat: "elapsed_at start (irs ! n) \<le> now_catch ch - start"
    by (simp add: elapsed_at_def)
  from out how ret cat have le: "elapsed_at start (irs ! n) \<le> v"
    by auto
  with so have sorted: "sorted (0 # map (elapsed_at start) (take (Suc n) irs) @ [v])"
    by simp
  from out how le
  have "elapsed_at start (irs ! n) < timeout \<and>
              (log = [NetworkIdleAfter v] \<and> v = now_ret (irs ! n) - start \<or>
               (\<exists>msg. log = [NetworkIdleAfter (now_ret (irs ! n) - start),
                              NetworkIdleUnavailable msg]) \<and>
                 v = now_catch ch - start) \<or>
            timeout \<le> elapsed_at start (irs ! n) \<and> timeout \<le> v \<and>
              ((\<exists>pend. log = [NetworkIdleTimeoutAfter v pend]) \<and>
                 v = now_ret (irs ! n) - start \<or>
               (\<exists>msg. log = [NetworkIdleUnavailable msg]) \<and> v = now_catch ch - start)"
    by auto
  with n sorted below show ?thesis
    by blast
qed

subsection \<open>The stability loop\<close>

lemma length_unchanged [simp]: "length (unchanged h c ms) = length ms"
  by (induction ms arbitrary: h c) simp_all

lemma stable_loop_declares:
  assumes "stable_loop timeout start s rs = Some (res, log)"
    and "PageStableAfter a c \<in> set log"
    and "stableChecks s < 3"
  shows "\<exists>n ms. 0 < n \<and> n \<le> length rs \<and> map metrics (take n rs) = map Inr ms \<and>
           3 \<le> stableChecks s + n \<and>
           drop (stableChecks s + n - 3)
             (replicate (stableChecks s) True @ unchanged (lastHeight s) (lastContent s) ms) =
             [True, True, True] \<and>
           res = Inr (now_ret (rs ! (n - 1)) - start) \<and>
           a = now_ret (rs ! (n - 1)) - start \<and> c = 3 \<and>
           (\<forall>r \<in> set (take n rs). now_cond r - start < timeout)"
  using assms
proof (induction rs arbitrary: s)
  case Nil
  then show ?case by simp
next
  case (Cons r rs)
  from Cons.prems have live: "now_cond r - start < timeout"
    by (auto split: if_splits)
  from Cons.prems live obtain m where m: "metrics r = Inr m"
    by (cases "metrics r") auto
  let ?same = "height m = lastHeight s \<and> contentHash m = lastContent s"
  let ?k = "stableChecks s"
  show ?case
  proof (cases ?same)
    case True
    note same = True
    show ?thesis
    proof (cases "requiredStableChecks \<le> ?k + 1")
      case True
      with Cons.prems live m same
      have res: "res = Inr (now_ret r - start)" and a: "a = now_ret r - start"
        and c: "c = ?k + 1"
        by auto
      from True Cons.prems(3) have k: "?k = 2"
        by (simp add: requiredStableChecks_def)
      have "drop (?k + 1 - 3) (replicate ?k True @ unchanged (lastHeight s) (lastContent s) [m])
              = [True, True, True]"
        using same by (simp add: k numeral_2_eq_2)
      with res a c k live m show ?thesis
        by (intro exI [of _ "1::nat"] exI [of _ "[m]"]) simp
    next
      case False
      let ?s' = "\<lparr>lastHeight = height m, lastContent = contentHash m, stableChecks = ?k + 1\<rparr>"
      from False Cons.prems live m same
      have run: "stable_loop timeout start ?s' rs = Some (res, log)"
        by simp
      from False have "stableChecks ?s' < 3"
        by (simp add: requiredStableChecks_def)
      from Cons.IH [OF run Cons.prems(2) this]
      obtain n ms where n: "0 < n" "n \<le> length rs"
        and ms: "map metrics (take n rs) = map Inr ms"
        and ge: "3 \<le> ?k + 1 + n"
        and fl: "drop (?k + 1 + n - 3)
             (replicate (?k + 1) True @ unchanged (height m) (contentHash m) ms) =
             [True, True, True]"
        and res: "res = Inr (now_ret (rs ! (n - 1)) - start)"
        and a: "a = now_ret (rs ! (n - 1)) - start" and c: "c = 3"
        and below: "\<forall>r \<in> set (take n rs). now_cond r - start < timeout"
        by auto
      have nth: "(r # rs) ! (Suc n - 1) = rs ! (n - 1)"
        using n(1) by (cases n) simp_all
      have fl': "drop (?k + Suc n - 3)
             (replicate ?k True @ unchanged (lastHeight s) (lastContent s) (m # ms)) =
             [True, True, True]"
        using fl same by (simp add: replicate_app_Cons_same)
      show ?thesis
        apply (rule exI [of _ "Suc n"])
        apply (rule exI [of _ "m # ms"])
        using n ms ge fl' res a c below live m nth
        apply simp
        done
    qed
  next
    case False
    let ?s' = "\<lparr>lastHeight = height m, lastContent = contentHash m, stableChecks = 0\<rparr>"
    from False Cons.prems live m
    have run: "stable_loop timeout start ?s' rs = Some (res, log)"
      by auto
    have "stableChecks ?s' < 3" by simp
    from Cons.IH [OF run Cons.prems(2) this]
    obtain n ms where n: "0 < n" "n \<le> length rs"
      and ms: "map metrics (take n rs) = map Inr ms"
      and ge: "3 \<le> n"
      and fl: "drop (n - 3) (unchanged (height m) (contentHash m) ms) = [True, True, True]"
      and res: "res = Inr (now_ret (rs ! (n - 1)) - start)"
      and a: "a = now_ret (rs ! (n - 1)) - start" and c: "c = 3"
      and below: "\<forall>r \<in> set (take n rs). now_cond r - start < timeout"
      by auto
    have nth: "(r # rs) ! (Suc n - 1) = rs ! (n - 1)"
      using n(1) by (cases n) simp_all
    from ms have len: "length ms = n"
      using n(2) by (metis length_map length_take min.absorb2)
    have idx: "?k + Suc n - 3 = Suc ?k + (n - 3)"
      using ge by simp
    have fl': "drop (?k + Suc n - 3)
           (replicate ?k True @ unchanged (lastHeight s) (lastContent s) (m # ms)) =
           [True, True, True]"
      unfolding idx using fl by simp
    show ?thesis
      apply (rule exI [of _ "Suc n"])
      apply (rule exI [of _ "m # ms"])
      using n ms ge fl' res a c below live m nth
      apply simp
      done
  qed
qed

lemma stable_loop_run:
  assumes "clock_ok t rs"
    and "stable_loop timeout start s rs = Some (Inr v, log)"
  shows "\<exists>n<length rs.
           v = now_ret (rs ! n) - start \<and> elapsed_at start (rs ! n) \<le> v \<and>
           sorted ((t - start) # map (elapsed_at start) (take (Suc n) rs) @ [v]) \<and>
           (\<forall>r \<in> set (take n rs). elapsed_at start r < timeout) \<and>
           ((\<exists>c. log = [PageStableAfter v c]) \<and> elapsed_at start (rs ! n) < timeout \<or>
            log = [PageStabilityTimeoutAfter v] \<and> timeout \<le> elapsed_at start (rs ! n))"
  using assms
proof (induction rs arbitrary: s t)
  case Nil
  then show ?case by simp
next
  case (Cons r rs)
  from Cons.prems(1) have t: "t \<le> now_cond r" "now_cond r \<le> now_ret r"
    and ok: "clock_ok (now_cond r) rs"
    by simp_all
  show ?case
  proof (cases "now_cond r - start < timeout")
    case False
    with Cons.prems(2) t show ?thesis
      by (intro exI [of _ "0::nat"]) (auto simp: elapsed_at_def)
  next
    case True
    note live = True
    from Cons.prems(2) live obtain m where m: "metrics r = Inr m"
      by (cases "metrics r") auto
    show ?thesis
    proof (cases "height m = lastHeight s \<and> contentHash m = lastContent s \<and>
                  requiredStableChecks \<le> stableChecks s + 1")
      case True
      with Cons.prems(2) live m t show ?thesis
        by (intro exI [of _ "0::nat"]) (auto simp: elapsed_at_def)
    next
      case False
      with Cons.prems(2) live m
      have "\<exists>s'. stable_loop timeout start s' rs = Some (Inr v, log)"
        by (cases "height m = lastHeight s \<and> contentHash m = lastContent s") auto
      then obtain s' where "stable_loop timeout start s' rs = Some (Inr v, log)" ..
      from Cons.IH [OF ok this] obtain n where n: "n < length rs"
        and v: "v = now_ret (rs ! n) - start" "elapsed_at start (rs ! n) \<le> v"
        and so: "sorted ((now_cond r - start) # map (elapsed_at start) (take (Suc n) rs) @ [v])"
        and below: "\<forall>r \<in> set (take n rs). elapsed_at start r < timeout"
        and how: "(\<exists>c. log = [PageStableAfter v c]) \<and> elapsed_at start (rs ! n) < timeout \<or>
            log = [PageStabilityTimeoutAfter v] \<and> timeout \<le> elapsed_at start (rs ! n)"
        by blast
      from sorted_push [OF so t(1)]
      have "sorted ((t - start) # map (elapsed_at start) (take (Suc (Suc n)) (r # rs)) @ [v])"
        by (simp add: elapsed_at_def)
      moreover from live have "elapsed_at start r < timeout"
        by (simp add: elapsed_at_def)
      ultimately show ?thesis using n v below how
        by (intro exI [of _ "Suc n"]) simp
    qed
  qed
qed

lemma stable_loop_returns:
  assumes "\<exists>r \<in> set rs. timeout \<le> now_cond r - start"
  shows "\<exists>res log. stable_loop timeout start s rs = Some (res, log)"
  using assms
proof (induction rs arbitrary: s)
  case Nil
  then show ?case by simp
next
  case (Cons r rs)
  show ?case
  proof (cases "now_cond r - start < timeout")
    case False
    then show ?thesis by simp
  next
    case True
    with Cons.prems have "\<exists>r \<in> set rs. timeout \<le> now_cond r - start"
      by auto
    from Cons.IH [OF this] True show ?thesis
      by (auto split: sum.splits)
  qed
qed

lemma stable_loop_error:
  assumes "stable_loop timeout start s rs = Some (Inl e, log)"
  shows "\<exists>r \<in> set rs. \<exists>msg. metrics r = Inl msg \<and> e = PageError msg"
  using assms
proof (induction rs arbitrary: s)
  case Nil
  then show ?case by simp
next
  case (Cons r rs)
  then show ?case
    by (auto split: if_splits sum.splits)
qed

lemma WaitForPageStable_run:
  assumes ok: "clock_ok start rs"
    and call: "WaitForPageStable_call timeout start rs = Some (Inr v, log)"
  shows "\<exists>n<length rs.
           v = now_ret (rs ! n) - start \<and>
           sorted (0 # map (elapsed_at start) (take (Suc n) rs) @ [v]) \<and>
           (\<forall>r \<in> set (take n rs). elapsed_at start r < timeout) \<and>
           ((\<exists>c. log = [PageStableAfter v c]) \<and> elapsed_at start (rs ! n) < timeout \<or>
            log = [PageStabilityTimeoutAfter v] \<and> timeout \<le> elapsed_at start (rs ! n) \<and>
              timeout \<le> v)"
proof -
  from call
  have run: "stable_loop timeout start
                \<lparr>lastHeight = 0, lastContent = 0, stableChecks = 0\<rparr> rs = Some (Inr v, log)"
    by (simp add: WaitForPageStable_call_def)
  from stable_loop_run [OF ok run] obtain n where "n < length rs"
    "v = now_ret (rs ! n) - start" "elapsed_at start (rs ! n) \<le> v"
    "sorted ((start - start) # map (elapsed_at start) (take (Suc n) rs) @ [v])"
    "\<forall>r \<in> set (take n rs). elapsed_at start r < timeout"
    "(\<exists>c. log = [PageStableAfter v c]) \<and> elapsed_at start (rs ! n) < timeout \<or>
       log = [PageStabilityTimeoutAfter v] \<and> timeout \<le> elapsed_at start (rs ! n)"
    by blast
  then show ?thesis
    by (intro exI [of _ n]) auto
qed

subsection \<open>The loading-indicator loop and WaitForPageLoad\<close>

lemma loading_loop_run:
  assumes "clock_ok t rs"
    and "loading_loop timeout start rs = Some (Inr v, log)"
  shows "\<exists>n<length rs.
           v = now_ret (rs ! n) - start \<and> elapsed_at start (rs ! n) \<le> v \<and>
           sorted ((t - start) # map (elapsed_at start) (take (Suc n) rs) @ [v]) \<and>
           (\<forall>r \<in> set (take n rs). elapsed_at start r < timeout) \<and>
           (log = [LoadingIndicatorsClearedAfter v] \<and> elapsed_at start (rs ! n) < timeout \<or>
            log = [LoadingIndicatorTimeoutAfter v] \<and> timeout \<le> elapsed_at start (rs ! n))"
  using assms
proof (induction rs arbitrary: t)
  case Nil
  then show ?case by simp
next
  case (Cons r rs)
  from Cons.prems(1) have t: "t \<le> now_cond r" "now_cond r \<le> now_ret r"
    and ok: "clock_ok (now_cond r) rs"
    by simp_all
  show ?case
  proof (cases "now_cond r - start < timeout")
    case False
    with Cons.prems(2) t show ?thesis
      by (intro exI [of _ "0::nat"]) (auto simp: elapsed_at_def)
  next
    case True
    note live = True
    from Cons.prems(2) live obtain ind where ind: "hasLoadingIndicators r = Inr ind"
      by (cases "hasLoadingIndicators r") auto
    show ?thesis
    proof (cases ind)
      case False
      with Cons.prems(2) live ind t show ?thesis
        by (intro exI [of _ "0::nat"]) (auto simp: elapsed_at_def)
    next
      case True
      with Cons.prems(2) live ind
      have "loading_loop timeout start rs = Some (Inr v, log)"
        by simp
      from Cons.IH [OF ok this] obtain n where n: "n < length rs"
        and v: "v = now_ret (rs ! n) - start" "elapsed_at start (rs ! n) \<le> v"
        and so: "sorted ((now_cond r - start) # map (elapsed_at start) (take (Suc n) rs) @ [v])"
        and below: "\<forall>r \<in> set (take n rs). elapsed_at start r < timeout"
        and how: "log = [LoadingIndicatorsClearedAfter v] \<and> elapsed_at start (rs ! n) < timeout \<or>
            log = [LoadingIndicatorTimeoutAfter v] \<and> timeout \<le> elapsed_at start (rs ! n)"
        by blast
      from sorted_push [OF so t(1)]
      have "sorted ((t - start) # map (elapsed_at start) (take (Suc (Suc n)) (r # rs)) @ [v])"
        by (simp add: elapsed_at_def)
      moreover from live have "elapsed_at start r < timeout"
        by (simp add: elapsed_at_def)
      ultimately show ?thesis using n v below how
        by (intro exI [of _ "Suc n"]) simp
    qed
  qed
qed

lemma loading_loop_returns:
  assumes "\<exists>r \<in> set rs. timeout \<le> now_cond r - start"
  shows "\<exists>res log. loading_loop timeout start rs = Some (res, log)"
  using assms
proof (induction rs)
  case Nil
  then show ?case by simp
next
  case (Cons r rs)
  show ?case
  proof (cases "now_cond r - start < timeout")
    case False
    then show ?thesis by simp
  next
    case True
    with Cons.prems have "\<exists>r \<in> set rs. timeout \<le> now_cond r - start"
      by auto
    from Cons.IH [OF this] True show ?thesis
      by (auto split: sum.splits)
  qed
qed

lemma loading_loop_error:
  assumes "loading_loop timeout start rs = Some (Inl e, log)"
  shows "\<exists>r \<in> set rs. \<exists>msg. hasLoadingIndicators r = Inl msg \<and> e = PageError msg"
  using assms
proof (induction rs)
  case Nil
  then show ?case by simp
next
  case (Cons r rs)
  then show ?case
    by (auto split: if_splits sum.splits)
qed

lemma WaitForLoadingComplete_run:
  assumes ok: "clock_ok start rs"
    and call: "WaitForLoadingComplete_call timeout start rs = Some (Inr v, log)"
  shows "\<exists>n<length rs.
           v = now_ret (rs ! n) - start \<and>
           sorted (0 # map (elapsed_at start) (take (Suc n) rs) @ [v]) \<and>
           (\<forall>r \<in> set (take n rs). elapsed_at start r < timeout) \<and>
           (log = [LoadingIndicatorsClearedAfter v] \<and> elapsed_at start (rs ! n) < timeout \<or>
            log = [LoadingIndicatorTimeoutAfter v] \<and> timeout \<le> elapsed_at start (rs ! n) \<and>
              timeout \<le> v)"
proof -
  from call have run: "loading_loop timeout start rs = Some (Inr v, log)"
    by (simp add: WaitForLoadingComplete_call_def)
  from loading_loop_run [OF ok run] obtain n where "n < length rs"
    "v = now_ret (rs ! n) - start" "elapsed_at start (rs ! n) \<le> v"
    "sorted ((start - start) # map (elapsed_at start) (take (Suc n) rs) @ [v])"
    "\<forall>r \<in> set (take n rs). elapsed_at start r < timeout"
    "log = [LoadingIndicatorsClearedAfter v] \<and> elapsed_at start (rs ! n) < timeout \<or>
       log = [LoadingIndicatorTimeoutAfter v] \<and> timeout \<le> elapsed_at start (rs ! n)"
    by blast
  then show ?thesis
    by (intro exI [of _ n]) auto
qed

lemma WaitForPageLoad_call_swallows:
  "fst (WaitForPageLoad_call w) = Inr ()"
  "WaitForPageLoad_call (Some msg) = (Inr (), [TimeoutWaitingForHA])"
  "WaitForPageLoad_call None = (Inr (), [])"
  by (simp_all add: WaitForPageLoad_call_def WaitForPageLoad_try_def split: option.splits)

subsection \<open>Claims about the detectors\<close>

text \<open>
  Claim C5 as stated fails where the instrumentation channel cannot be attached: the
  detector then returns at once, here 3 ms after it started, far below its timeout of
  10000 ms and below the quiet window of 500 ms, without having looked at the network.
\<close>

theorem WaitForNetworkIdle_early_return_counterexample:
  "WaitForNetworkIdle_call 10000 500 1000
     \<lparr>attach_result = Some ''Target closed'', now_attached = 1000, during_detach = [],
      detach_result = None, now_catch = 1003\<rparr> []
   = Some (Inr 3, [NetworkIdleUnavailable ''Target closed'']) \<and>
   (3::int) < 10000 \<and> (3::int) < 500"
  by (simp add: WaitForNetworkIdle_call_def WaitForNetworkIdle_try_def)

text \<open>
  Claim C5, amended.  WaitForNetworkIdle never declares the network idle while its
  in-flight counter is above 0: whenever it logs "Network idle after", it does so in a
  loop iteration that began below the timeout, in which the counter (after every event
  delivered so far) is 0 and the time since the last recorded activity is at least the
  quiet window; the value logged is the elapsed time read in that iteration.  With a
  clock that does not run backwards, it returns a value below its timeout only when it
  declared the network idle, or when the channel could not be attached.
\<close>

theorem WaitForNetworkIdle_idle_only_when_quiet:
  assumes "WaitForNetworkIdle_call timeout idleTime start ch rs = Some (Inr v, log)"
  shows "(\<forall>a. NetworkIdleAfter a \<in> set log \<longrightarrow>
            (\<exists>n<length rs.
               pendingRequests
                 (deliver \<lparr>pendingRequests = 0, lastActivityTime = now_attached ch\<rparr>
                    (concat (map during_sleep (take n rs)))) = 0 \<and>
               idleTime \<le> now_check (rs ! n) -
                 lastActivityTime
                   (deliver \<lparr>pendingRequests = 0, lastActivityTime = now_attached ch\<rparr>
                      (concat (map during_sleep (take n rs)))) \<and>
               now_cond (rs ! n) - start < timeout \<and>
               a = now_ret (rs ! n) - start)) \<and>
         ((\<forall>r \<in> set rs. now_cond r \<le> now_ret r \<and> now_cond r \<le> now_catch ch) \<and> v < timeout \<longrightarrow>
            (\<exists>a. NetworkIdleAfter a \<in> set log) \<or> attach_result ch \<noteq> None)"
proof (cases "attach_result ch")
  case (Some msg)
  with assms show ?thesis
    by (auto simp: WaitForNetworkIdle_call_def WaitForNetworkIdle_try_def)
next
  case None
  let ?s0 = "\<lparr>pendingRequests = 0, lastActivityTime = now_attached ch\<rparr>"
  from None assms obtain x log0 where
    loop: "idle_loop timeout idleTime start ch ?s0 rs = Some (x, log0)"
    and out: "(x = Inr v \<and> log = log0) \<or>
              (\<exists>msg. x = Inl msg \<and> log = log0 @ [NetworkIdleUnavailable msg] \<and>
                     v = now_catch ch - start)"
    by (auto simp: WaitForNetworkIdle_call_def WaitForNetworkIdle_try_def
        split: option.splits sum.splits prod.splits)
  have same: "NetworkIdleAfter a \<in> set log \<longleftrightarrow> NetworkIdleAfter a \<in> set log0" for a
    using out by auto
  have part1: "\<exists>n<length rs.
               pendingRequests (deliver ?s0 (concat (map during_sleep (take n rs)))) = 0 \<and>
               idleTime \<le> now_check (rs ! n) -
                 lastActivityTime (deliver ?s0 (concat (map during_sleep (take n rs)))) \<and>
               now_cond (rs ! n) - start < timeout \<and>
               a = now_ret (rs ! n) - start"
    if "NetworkIdleAfter a \<in> set log" for a
  proof -
    from that same have "NetworkIdleAfter a \<in> set log0" by simp
    from idle_loop_declares [OF loop this] show ?thesis by blast
  qed
  have part2: "\<exists>a. NetworkIdleAfter a \<in> set log"
    if clock: "\<forall>r \<in> set rs. now_cond r \<le> now_ret r \<and> now_cond r \<le> now_catch ch"
      and early: "v < timeout"
  proof (rule ccontr)
    assume "\<not> (\<exists>a. NetworkIdleAfter a \<in> set log)"
    with same have "\<forall>a. NetworkIdleAfter a \<notin> set log0" by simp
    from idle_loop_not_declared [OF loop this] obtain r where r: "r \<in> set rs"
      and late: "timeout \<le> now_cond r - start"
      and ret: "\<forall>v. x = Inr v \<longrightarrow> v = now_ret r - start"
      by blast
    from clock r have "now_cond r \<le> now_ret r" "now_cond r \<le> now_catch ch" by auto
    with out ret late have "timeout \<le> v" by auto
    with early show False by simp
  qed
  from part1 part2 show ?thesis by blast
qed

theorem WaitForNetworkIdle_idle_only_when_quiet_witness:
  "WaitForNetworkIdle_call 10000 500 0 quiet_channel quiet_rounds =
     Some (Inr 627, [NetworkIdleAfter 627]) \<and>
   (\<exists>n<length quiet_rounds.
      pendingRequests
        (deliver \<lparr>pendingRequests = 0, lastActivityTime = now_attached quiet_channel\<rparr>
           (concat (map during_sleep (take n quiet_rounds)))) = 0 \<and>
      500 \<le> now_check (quiet_rounds ! n) -
        lastActivityTime
          (deliver \<lparr>pendingRequests = 0, lastActivityTime = now_attached quiet_channel\<rparr>
             (concat (map during_sleep (take n quiet_rounds)))) \<and>
      now_cond (quiet_rounds ! n) - 0 < 10000 \<and>
      627 = now_ret (quiet_rounds ! n) - 0)"
proof -
  have run: "WaitForNetworkIdle_call 10000 500 0 quiet_channel quiet_rounds =
     Some (Inr 627, [NetworkIdleAfter 627])"
    by code_simp
  have declared: "NetworkIdleAfter 627 \<in> set [NetworkIdleAfter 627]"
    by simp
  from WaitForNetworkIdle_idle_only_when_quiet [OF run] declared
  have "\<exists>n<length quiet_rounds.
      pendingRequests
        (deliver \<lparr>pendingRequests = 0, lastActivityTime = now_attached quiet_channel\<rparr>
           (concat (map during_sleep (take n quiet_rounds)))) = 0 \<and>
      500 \<le> now_check (quiet_rounds ! n) -
        lastActivityTime
          (deliver \<lparr>pendingRequests = 0, lastActivityTime = now_attached quiet_channel\<rparr>
             (concat (map during_sleep (take n quiet_rounds)))) \<and>
      now_cond (quiet_rounds ! n) - 0 < 10000 \<and>
      627 = now_ret (quiet_rounds ! n) - 0"
    by blast
  with run show ?thesis by blast
qed

text \<open>
  Claim C6.  WaitForPageStable declares the page stable only after at least three
  samples, the last three of which each equal the sample before it in both height and
  content size (what precedes the first sample is the detector's initial value, height
  0 and content size 0); the counter it logs is then 3.  A sample that differs in
  either metric puts the counter back to 0.  When the loop condition finds the timeout
  reached, the detector returns the elapsed time and raises nothing.
\<close>

theorem WaitForPageStable_three_unchanged_samples:
  "(\<forall>res log a c.
      WaitForPageStable_call timeout start rs = Some (res, log) \<and> PageStableAfter a c \<in> set log \<longrightarrow>
      (\<exists>n ms. 3 \<le> n \<and> n \<le> length rs \<and> map metrics (take n rs) = map Inr ms \<and>
         drop (n - 3) (unchanged 0 0 ms) = [True, True, True] \<and>
         res = Inr a \<and> a = now_ret (rs ! (n - 1)) - start \<and> c = 3)) \<and>
   (\<forall>s r rest m.
      now_cond r - start < timeout \<and> metrics r = Inr m \<and>
      (height m \<noteq> lastHeight s \<or> contentHash m \<noteq> lastContent s) \<longrightarrow>
      stable_loop timeout start s (r # rest) =
        stable_loop timeout start
          \<lparr>lastHeight = height m, lastContent = contentHash m, stableChecks = 0\<rparr> rest) \<and>
   (\<forall>s r rest.
      timeout \<le> now_cond r - start \<longrightarrow>
      stable_loop timeout start s (r # rest) =
        Some (Inr (now_ret r - start), [PageStabilityTimeoutAfter (now_ret r - start)]))"
proof (intro conjI allI impI)
  fix res log a c
  assume h: "WaitForPageStable_call timeout start rs = Some (res, log) \<and>
             PageStableAfter a c \<in> set log"
  let ?s0 = "\<lparr>lastHeight = 0, lastContent = 0, stableChecks = 0\<rparr>"
  from h have run: "stable_loop timeout start ?s0 rs = Some (res, log)"
    and decl: "PageStableAfter a c \<in> set log"
    by (simp_all add: WaitForPageStable_call_def)
  have "stableChecks ?s0 < 3" by simp
  from stable_loop_declares [OF run decl this]
  show "\<exists>n ms. 3 \<le> n \<and> n \<le> length rs \<and> map metrics (take n rs) = map Inr ms \<and>
         drop (n - 3) (unchanged 0 0 ms) = [True, True, True] \<and>
         res = Inr a \<and> a = now_ret (rs ! (n - 1)) - start \<and> c = 3"
    by auto
next
  fix s :: stable_state and r :: stable_round and rest m
  assume "now_cond r - start < timeout \<and> metrics r = Inr m \<and>
      (height m \<noteq> lastHeight s \<or> contentHash m \<noteq> lastContent s)"
  then show "stable_loop timeout start s (r # rest) =
        stable_loop timeout start
          \<lparr>lastHeight = height m, lastContent = contentHash m, stableChecks = 0\<rparr> rest"
    by auto
next
  fix s :: stable_state and r :: stable_round and rest
  assume "timeout \<le> now_cond r - start"
  then show "stable_loop timeout start s (r # rest) =
        Some (Inr (now_ret r - start), [PageStabilityTimeoutAfter (now_ret r - start)])"
    by simp
qed

theorem WaitForPageStable_three_unchanged_samples_witness:
  "WaitForPageStable_call 5000 0 settling_rounds = Some (Inr 405, [PageStableAfter 405 3]) \<and>
   (\<exists>n ms. 3 \<le> n \<and> n \<le> length settling_rounds \<and>
      map metrics (take n settling_rounds) = map Inr ms \<and>
      drop (n - 3) (unchanged 0 0 ms) = [True, True, True] \<and>
      405 = now_ret (settling_rounds ! (n - 1)) - 0)"
proof -
  have run: "WaitForPageStable_call 5000 0 settling_rounds =
      Some (Inr 405, [PageStableAfter 405 3])"
    by code_simp
  have decl: "PageStableAfter 405 3 \<in> set [PageStableAfter 405 3]"
    by simp
  from WaitForPageStable_three_unchanged_samples [of 5000 0 settling_rounds] run decl
  have "\<exists>n ms. 3 \<le> n \<and> n \<le> length settling_rounds \<and>
      map metrics (take n settling_rounds) = map Inr ms \<and>
      drop (n - 3) (unchanged 0 0 ms) = [True, True, True] \<and>
      405 = now_ret (settling_rounds ! (n - 1)) - 0"
    by blast
  with run show ?thesis by blast
qed

text \<open>
  Claim C7 as stated fails: the value a detector returns on timeout is not bounded by
  the configured timeout.  With a timeout of 250 ms, two requests in flight and the
  loop waking every 101 ms, WaitForNetworkIdle returns 306.
\<close>

theorem elapsed_exceeds_timeout_counterexample:
  "WaitForNetworkIdle_call 250 500 0
     \<lparr>attach_result = None, now_attached = 2, during_detach = [],
      detach_result = None, now_catch = 400\<rparr>
     [\<lparr>now_cond = 2, now_ret = 2, now_check = 2,
       during_sleep = [(RequestWillBeSent, 40), (RequestWillBeSent, 55)]\<rparr>,
      \<lparr>now_cond = 103, now_ret = 103, now_check = 103, during_sleep = []\<rparr>,
      \<lparr>now_cond = 204, now_ret = 204, now_check = 204, during_sleep = []\<rparr>,
      \<lparr>now_cond = 305, now_ret = 306, now_check = 305, during_sleep = []\<rparr>]
   = Some (Inr 306, [NetworkIdleTimeoutAfter 306 2]) \<and> \<not> (306 \<le> (250::int))"
  by code_simp

text \<open>
  Claim C7, amended.  With a clock that does not run backwards, each detector that
  reports an elapsed wait (WaitForPageStable, WaitForLoadingComplete,
  WaitForNetworkIdle) returns the elapsed time it read in the iteration \<open>n\<close> in which
  it left its loop (WaitForNetworkIdle the one read in its \<open>catch\<close> block when the
  detach rejected), and the elapsed times of its loop tests up to that iteration,
  followed by the value it returns, form a non-decreasing sequence that starts at or
  above 0.  Every loop test before the last read an elapsed time below the timeout.
  A detector that declares readiness does so in an iteration whose own loop test was
  below the timeout; a detector that leaves by timeout read the timeout or more in its
  last loop test and returns at least the configured timeout.  So the timeout does not
  bound the returned value, but the returned value exceeds it by less than the time
  between the last loop test that was below the timeout and the final clock reading.
  When the channel cannot be attached, WaitForNetworkIdle makes no loop test and returns
  the elapsed time read in the \<open>catch\<close> block.  Whenever WaitForNetworkIdle returns,
  it returns a number and raises nothing.
\<close>

theorem detectors_elapsed_nondecreasing:
  "(clock_ok start rs \<and> WaitForPageStable_call timeout start rs = Some (Inr v, log) \<longrightarrow>
      (\<exists>n<length rs.
         v = now_ret (rs ! n) - start \<and>
         sorted (0 # map (elapsed_at start) (take (Suc n) rs) @ [v]) \<and>
         (\<forall>r \<in> set (take n rs). elapsed_at start r < timeout) \<and>
         ((\<exists>c. log = [PageStableAfter v c]) \<and> elapsed_at start (rs ! n) < timeout \<or>
          log = [PageStabilityTimeoutAfter v] \<and> timeout \<le> elapsed_at start (rs ! n) \<and>
            timeout \<le> v))) \<and>
   (clock_ok start lrs \<and> WaitForLoadingComplete_call timeout start lrs = Some (Inr v, log) \<longrightarrow>
      (\<exists>n<length lrs.
         v = now_ret (lrs ! n) - start \<and>
         sorted (0 # map (elapsed_at start) (take (Suc n) lrs) @ [v]) \<and>
         (\<forall>r \<in> set (take n lrs). elapsed_at start r < timeout) \<and>
         (log = [LoadingIndicatorsClearedAfter v] \<and> elapsed_at start (lrs ! n) < timeout \<or>
          log = [LoadingIndicatorTimeoutAfter v] \<and> timeout \<le> elapsed_at start (lrs ! n) \<and>
            timeout \<le> v))) \<and>
   (clock_ok start irs \<and> (\<forall>r \<in> set irs. now_cond r \<le> now_catch ch) \<and>
    attach_result ch = None \<and>
    WaitForNetworkIdle_call timeout idleTime start ch irs = Some (Inr v, log) \<longrightarrow>
      (\<exists>n<length irs.
         sorted (0 # map (elapsed_at start) (take (Suc n) irs) @ [v]) \<and>
         (\<forall>r \<in> set (take n irs). elapsed_at start r < timeout) \<and>
         (elapsed_at start (irs ! n) < timeout \<and>
            (log = [NetworkIdleAfter v] \<and> v = now_ret (irs ! n) - start \<or>
             (\<exists>msg. log = [NetworkIdleAfter (now_ret (irs ! n) - start),
                            NetworkIdleUnavailable msg]) \<and>
               v = now_catch ch - start) \<or>
          timeout \<le> elapsed_at start (irs ! n) \<and> timeout \<le> v \<and>
            ((\<exists>pend. log = [NetworkIdleTimeoutAfter v pend]) \<and>
               v = now_ret (irs ! n) - start \<or>
             (\<exists>msg. log = [NetworkIdleUnavailable msg]) \<and> v = now_catch ch - start)))) \<and>
   (start \<le> now_catch ch \<and> attach_result ch = Some msg \<and>
    WaitForNetworkIdle_call timeout idleTime start ch irs = Some (Inr v, log) \<longrightarrow>
      v = now_catch ch - start \<and> 0 \<le> v \<and> log = [NetworkIdleUnavailable msg]) \<and>
   (\<forall>res lines. WaitForNetworkIdle_call timeout idleTime start ch irs = Some (res, lines) \<longrightarrow>
      (\<exists>w. res = Inr w))"
proof -
  have "\<forall>res lines. WaitForNetworkIdle_call timeout idleTime start ch irs = Some (res, lines) \<longrightarrow>
      (\<exists>w. res = Inr w)"
    using WaitForNetworkIdle_call_no_error by blast
  moreover
  have "v = now_catch ch - start \<and> 0 \<le> v \<and> log = [NetworkIdleUnavailable msg]"
    if "start \<le> now_catch ch" and "attach_result ch = Some msg"
      and "WaitForNetworkIdle_call timeout idleTime start ch irs = Some (Inr v, log)"
    using that by (auto simp: WaitForNetworkIdle_call_def WaitForNetworkIdle_try_def)
  moreover note WaitForPageStable_run [of start rs timeout v log]
    WaitForLoadingComplete_run [of start lrs timeout v log]
    WaitForNetworkIdle_run [of start irs ch timeout idleTime v log]
  ultimately show ?thesis by blast
qed

theorem detectors_elapsed_nondecreasing_witness:
  "WaitForNetworkIdle_call 250 500 0 busy_channel busy_rounds =
     Some (Inr 306, [NetworkIdleTimeoutAfter 306 2]) \<and>
   (\<exists>n<length busy_rounds.
      sorted (0 # map (elapsed_at 0) (take (Suc n) busy_rounds) @ [306]) \<and>
      (\<forall>r \<in> set (take n busy_rounds). elapsed_at 0 r < 250) \<and>
      250 \<le> elapsed_at 0 (busy_rounds ! n) \<and>
      306 = now_ret (busy_rounds ! n) - 0)"
proof -
  have run: "WaitForNetworkIdle_call 250 500 0 busy_channel busy_rounds =
      Some (Inr 306, [NetworkIdleTimeoutAfter 306 2])"
    by code_simp
  have ok: "clock_ok 0 busy_rounds"
    by code_simp
  have c1: "\<forall>r \<in> set busy_rounds. now_cond r \<le> now_catch busy_channel"
    by code_simp
  have att: "attach_result busy_channel = None"
    by code_simp
  from detectors_elapsed_nondecreasing
    [where irs = busy_rounds and ch = busy_channel and start = 0 and timeout = 250
       and idleTime = 500 and v = 306 and log = "[NetworkIdleTimeoutAfter 306 2]"
       and rs = "[]" and lrs = "[]" and msg = "[]"]
  have "clock_ok 0 busy_rounds \<and> (\<forall>r \<in> set busy_rounds. now_cond r \<le> now_catch busy_channel) \<and>
    attach_result busy_channel = None \<and>
    WaitForNetworkIdle_call 250 500 0 busy_channel busy_rounds =
      Some (Inr 306, [NetworkIdleTimeoutAfter 306 2]) \<longrightarrow>
      (\<exists>n<length busy_rounds.
         sorted (0 # map (elapsed_at 0) (take (Suc n) busy_rounds) @ [306]) \<and>
         (\<forall>r \<in> set (take n busy_rounds). elapsed_at 0 r < 250) \<and>
         (elapsed_at 0 (busy_rounds ! n) < 250 \<and>
            ([NetworkIdleTimeoutAfter 306 2] = [NetworkIdleAfter 306] \<and>
               306 = now_ret (busy_rounds ! n) - 0 \<or>
             (\<exists>msg. [NetworkIdleTimeoutAfter 306 2] =
                      [NetworkIdleAfter (now_ret (busy_rounds ! n) - 0),
                       NetworkIdleUnavailable msg]) \<and>
               306 = now_catch busy_channel - 0) \<or>
          250 \<le> elapsed_at 0 (busy_rounds ! n) \<and> (250::int) \<le> 306 \<and>
            ((\<exists>pend. [NetworkIdleTimeoutAfter 306 2] = [NetworkIdleTimeoutAfter 306 pend]) \<and>
               306 = now_ret (busy_rounds ! n) - 0 \<or>
             (\<exists>msg. [NetworkIdleTimeoutAfter 306 2] = [NetworkIdleUnavailable msg]) \<and>
               306 = now_catch busy_channel - 0)))"
    by (elim conjE)
  with ok c1 att run
  have "\<exists>n<length busy_rounds.
         sorted (0 # map (elapsed_at 0) (take (Suc n) busy_rounds) @ [306]) \<and>
         (\<forall>r \<in> set (take n busy_rounds). elapsed_at 0 r < 250) \<and>
         (elapsed_at 0 (busy_rounds ! n) < 250 \<and>
            ([NetworkIdleTimeoutAfter 306 2] = [NetworkIdleAfter 306] \<and>
               306 = now_ret (busy_rounds ! n) - 0 \<or>
             (\<exists>msg. [NetworkIdleTimeoutAfter 306 2] =
                      [NetworkIdleAfter (now_ret (busy_rounds ! n) - 0),
                       NetworkIdleUnavailable msg]) \<and>
               306 = now_catch busy_channel - 0) \<or>
          250 \<le> elapsed_at 0 (busy_rounds ! n) \<and> (250::int) \<le> 306 \<and>
            ((\<exists>pend. [NetworkIdleTimeoutAfter 306 2] = [NetworkIdleTimeoutAfter 306 pend]) \<and>
               306 = now_ret (busy_rounds ! n) - 0 \<or>
             (\<exists>msg. [NetworkIdleTimeoutAfter 306 2] = [NetworkIdleUnavailable msg]) \<and>
               306 = now_catch busy_channel - 0))"
    by blast
  then obtain n where "n < length busy_rounds"
    "sorted (0 # map (elapsed_at 0) (take (Suc n) busy_rounds) @ [306])"
    "\<forall>r \<in> set (take n busy_rounds). elapsed_at 0 r < 250"
    "250 \<le> elapsed_at 0 (busy_rounds ! n)"
    "306 = now_ret (busy_rounds ! n) - 0"
    by fastforce
  with run show ?thesis by blast
qed

text \<open>
  Claim C8, evaluated where a page evaluation rejects.  WaitForNetworkIdle and
  WaitForPageLoad catch what their primitives throw, and the detectors' documentation
  promises a wait time and names no exception; WaitForPageStable and
  WaitForLoadingComplete await \<^verbatim>\<open>page.evaluate\<close> outside any handler, so its rejection
  reaches the caller instead of an elapsed time.
\<close>

theorem detector_rejection_reaches_caller:
  "WaitForPageStable_call 5000 0
     [\<lparr>now_cond = 0, now_ret = 0,
       metrics = Inl ''Execution context was destroyed''\<rparr>]
   = Some (Inl (PageError ''Execution context was destroyed''), []) \<and>
   WaitForLoadingComplete_call 10000 0
     [\<lparr>now_cond = 0, now_ret = 0,
       hasLoadingIndicators = Inl ''Execution context was destroyed''\<rparr>]
   = Some (Inl (PageError ''Execution context was destroyed''), [])"
  by (simp add: WaitForPageStable_call_def WaitForLoadingComplete_call_def)

text \<open>
  What the source does meet of claim C8: WaitForNetworkIdle returns a number whenever it
  returns, logs and returns the elapsed time when the channel cannot be attached, and
  does return once a loop test reads the timeout; WaitForPageLoad swallows the rejection
  of its wait and logs the timeout; and WaitForPageStable and WaitForLoadingComplete
  raise nothing but a rejected page evaluation, and finish once a loop test reads the
  timeout.
\<close>

lemma detectors_degrade_without_throwing:
  "(\<forall>res log. WaitForNetworkIdle_call timeout idleTime start ch irs = Some (res, log) \<longrightarrow>
      (\<exists>v. res = Inr v)) \<and>
   (\<forall>msg. attach_result ch = Some msg \<longrightarrow>
      WaitForNetworkIdle_call timeout idleTime start ch irs =
        Some (Inr (now_catch ch - start), [NetworkIdleUnavailable msg])) \<and>
   ((\<exists>r \<in> set irs. timeout \<le> now_cond r - start) \<longrightarrow>
      (\<exists>v log. WaitForNetworkIdle_call timeout idleTime start ch irs = Some (Inr v, log))) \<and>
   fst (WaitForPageLoad_call w) = Inr () \<and>
   WaitForPageLoad_call (Some msg') = (Inr (), [TimeoutWaitingForHA]) \<and>
   (\<forall>e log. WaitForPageStable_call timeout start rs = Some (Inl e, log) \<longrightarrow>
      (\<exists>r \<in> set rs. \<exists>msg. metrics r = Inl msg \<and> e = PageError msg)) \<and>
   ((\<exists>r \<in> set rs. timeout \<le> now_cond r - start) \<longrightarrow>
      (\<exists>res log. WaitForPageStable_call timeout start rs = Some (res, log))) \<and>
   (\<forall>e log. WaitForLoadingComplete_call timeout start lrs = Some (Inl e, log) \<longrightarrow>
      (\<exists>r \<in> set lrs. \<exists>msg. hasLoadingIndicators r = Inl msg \<and> e = PageError msg)) \<and>
   ((\<exists>r \<in> set lrs. timeout \<le> now_cond r - start) \<longrightarrow>
      (\<exists>res log. WaitForLoadingComplete_call timeout start lrs = Some (res, log)))"
proof -
  have a: "\<forall>res log. WaitForNetworkIdle_call timeout idleTime start ch irs = Some (res, log) \<longrightarrow>
      (\<exists>v. res = Inr v)"
    using WaitForNetworkIdle_call_no_error by blast
  have b: "\<forall>msg. attach_result ch = Some msg \<longrightarrow>
      WaitForNetworkIdle_call timeout idleTime start ch irs =
        Some (Inr (now_catch ch - start), [NetworkIdleUnavailable msg])"
    using WaitForNetworkIdle_call_attach_failure by blast
  have c: "(\<exists>r \<in> set irs. timeout \<le> now_cond r - start) \<longrightarrow>
      (\<exists>v log. WaitForNetworkIdle_call timeout idleTime start ch irs = Some (Inr v, log))"
    using WaitForNetworkIdle_call_returns by blast
  have d: "fst (WaitForPageLoad_call w) = Inr () \<and>
      WaitForPageLoad_call (Some msg') = (Inr (), [TimeoutWaitingForHA])"
    by (simp add: WaitForPageLoad_call_swallows)
  have e: "\<forall>e log. WaitForPageStable_call timeout start rs = Some (Inl e, log) \<longrightarrow>
      (\<exists>r \<in> set rs. \<exists>msg. metrics r = Inl msg \<and> e = PageError msg)"
    unfolding WaitForPageStable_call_def using stable_loop_error by blast
  have f: "(\<exists>r \<in> set rs. timeout \<le> now_cond r - start) \<longrightarrow>
      (\<exists>res log. WaitForPageStable_call timeout start rs = Some (res, log))"
    unfolding WaitForPageStable_call_def using stable_loop_returns by blast
  have g: "\<forall>e log. WaitForLoadingComplete_call timeout start lrs = Some (Inl e, log) \<longrightarrow>
      (\<exists>r \<in> set lrs. \<exists>msg. hasLoadingIndicators r = Inl msg \<and> e = PageError msg)"
    unfolding WaitForLoadingComplete_call_def using loading_loop_error by blast
  have h: "(\<exists>r \<in> set lrs. timeout \<le> now_cond r - start) \<longrightarrow>
      (\<exists>res log. WaitForLoadingComplete_call timeout start lrs = Some (res, log))"
    unfolding WaitForLoadingComplete_call_def using loading_loop_returns by blast
  from a b c d e f g h show ?thesis by blast
qed

lemma detectors_degrade_at_attach_failure:
  "WaitForNetworkIdle_call 10000 500 0
     \<lparr>attach_result = Some ''Protocol error (Network.enable)'', now_attached = 0,
      during_detach = [], detach_result = None, now_catch = 12\<rparr> []
   = Some (Inr 12, [NetworkIdleUnavailable ''Protocol error (Network.enable)''])"
proof -
  let ?ch = "\<lparr>attach_result = Some ''Protocol error (Network.enable)'', now_attached = 0,
      during_detach = [], detach_result = None, now_catch = 12\<rparr>"
  have "attach_result ?ch = Some ''Protocol error (Network.enable)''"
    by simp
  with detectors_degrade_without_throwing
    [where ch = ?ch and timeout = 10000 and idleTime = 500 and start = 0 and irs = "[]"]
  have "WaitForNetworkIdle_call 10000 500 0 ?ch [] =
      Some (Inr (now_catch ?ch - 0), [NetworkIdleUnavailable ''Protocol error (Network.enable)''])"
    by blast
  then show ?thesis by simp
qed

end
